theory Spec2Isabelle
  imports Complex_Main
begin

section \<open>Stationary initialisation of the Kalman filter: data model\<close>

text \<open>
  The notebook \<^verbatim>\<open>kalman_filter_initialization_stationary.ipynb\<close> computes the
  stationary covariance \<open>Sigma\<close> of a state process \<open>alpha' = T alpha + eta\<close>, the solution of
  the discrete Lyapunov (Stein) equation \<open>Sigma = T Sigma T\<^sup>H + Q\<close>, by three
  functions: \<^verbatim>\<open>direct_inverse\<close>, \<^verbatim>\<open>bilinear1\<close> and \<^verbatim>\<open>bilinear2\<close>.

  A numpy array of complex numbers is a list of rows (a two-dimensional array with
  \<open>n\<close> rows and \<open>m\<close> columns satisfies \<open>is_mat n m\<close>). Floating-point numbers are
  idealised as exact complex numbers: the theorems say what the functions compute in
  exact arithmetic, and a statement "within tolerance" is proved as an exact equality.
  Rounding is outside the model; it matters next to singular matrices, where
  \<^verbatim>\<open>np.linalg.inv\<close> raises only if a pivot vanishes exactly.

  The transition matrix \<open>T\<close> is a square array (\<open>is_mat n n T\<close> is a premise of every
  theorem; what numpy's broadcasting makes of a non-square \<open>T\<close> is not modelled). The
  exceptions of the source are results of the model: the \<^verbatim>\<open>LinAlgError\<close> of
  \<^verbatim>\<open>np.linalg.inv\<close> on a singular matrix, the \<^verbatim>\<open>ValueError\<close> of \<^verbatim>\<open>dot\<close> on a
  \<open>Q\<close> of the wrong shape, and whatever \<^verbatim>\<open>scipy.linalg.solve_lyapunov\<close> raises.
\<close>

type_synonym cvec = "complex list"
type_synonym cmat = "complex list list"

datatype error =
    Singular_Matrix   \<comment> \<open>\<^verbatim>\<open>numpy.linalg.LinAlgError("Singular matrix")\<close> of \<^verbatim>\<open>np.linalg.inv\<close>\<close>
  | Lyapunov_Error    \<comment> \<open>an exception raised inside \<^verbatim>\<open>linalg.solve_lyapunov\<close>\<close>
  | Index_Error       \<comment> \<open>\<^verbatim>\<open>IndexError\<close> of \<^verbatim>\<open>T[0,0] = ...\<close> on an empty array\<close>
  | Value_Error       \<comment> \<open>\<^verbatim>\<open>ValueError\<close>: \<^verbatim>\<open>np.zeros\<close> on a negative dimension, \<^verbatim>\<open>dot\<close> on shapes that do not match\<close>

subsection \<open>Arrays and the numpy primitives the notebook calls\<close>

definition is_mat :: "nat \<Rightarrow> nat \<Rightarrow> cmat \<Rightarrow> bool" where
  "is_mat n m A = (length A = n \<and> (\<forall>r \<in> set A. length r = m))"

definition mk_mat :: "nat \<Rightarrow> nat \<Rightarrow> (nat \<Rightarrow> nat \<Rightarrow> complex) \<Rightarrow> cmat" where
  "mk_mat n m f = map (\<lambda>i. map (f i) [0..<m]) [0..<n]"

definition ncols :: "cmat \<Rightarrow> nat" where
  "ncols A = (case A of [] \<Rightarrow> 0 | r # _ \<Rightarrow> length r)"

text \<open>\<^verbatim>\<open>np.eye(n)\<close>\<close>

definition eye :: "nat \<Rightarrow> cmat" where
  "eye n = mk_mat n n (\<lambda>i j. if i = j then 1 else 0)"

text \<open>\<^verbatim>\<open>A + B\<close>, \<^verbatim>\<open>A - B\<close>, \<^verbatim>\<open>-A\<close> and \<^verbatim>\<open>c * A\<close> on arrays of one shape.\<close>

definition mat_add :: "cmat \<Rightarrow> cmat \<Rightarrow> cmat" where
  "mat_add A B = map2 (map2 (+)) A B"

definition mat_sub :: "cmat \<Rightarrow> cmat \<Rightarrow> cmat" where
  "mat_sub A B = map2 (map2 (-)) A B"

definition mat_neg :: "cmat \<Rightarrow> cmat" where
  "mat_neg A = map (map uminus) A"

definition smult :: "complex \<Rightarrow> cmat \<Rightarrow> cmat" where
  "smult c A = map (map ((*) c)) A"

text \<open>\<^verbatim>\<open>A.conj()\<close>, \<^verbatim>\<open>A.T\<close> and their composition \<^verbatim>\<open>A.conj().T\<close>\<close>

definition conj_m :: "cmat \<Rightarrow> cmat" where
  "conj_m A = map (map cnj) A"

definition transpose_m :: "cmat \<Rightarrow> cmat" where
  "transpose_m A = mk_mat (ncols A) (length A) (\<lambda>i j. A ! j ! i)"

definition ctrans :: "cmat \<Rightarrow> cmat" where
  "ctrans A = transpose_m (conj_m A)"

text \<open>\<^verbatim>\<open>A.dot(B)\<close>: the matrix product.\<close>

definition dot :: "cmat \<Rightarrow> cmat \<Rightarrow> cmat" where
  "dot A B = mk_mat (length A) (ncols B) (\<lambda>i j. \<Sum>k<length B. A ! i ! k * B ! k ! j)"

text \<open>\<^verbatim>\<open>np.kron(A, B)\<close>: entry \<open>(i * rows B + k, j * cols B + l)\<close> is \<open>A[i,j] * B[k,l]\<close>.\<close>

definition kron :: "cmat \<Rightarrow> cmat \<Rightarrow> cmat" where
  "kron A B = mk_mat (length A * length B) (ncols A * ncols B)
     (\<lambda>r c. A ! (r div length B) ! (c div ncols B) * B ! (r mod length B) ! (c mod ncols B))"

text \<open>
  \<^verbatim>\<open>A.size\<close> and \<^verbatim>\<open>A.reshape(r, c)\<close>. numpy reshapes in C order: the array is read
  row by row and refilled row by row. (numpy raises \<^verbatim>\<open>ValueError\<close> unless
  \<open>r * c\<close> is the size of the array; the two calls of the notebook, \<^verbatim>\<open>Q.reshape(Q.size, 1)\<close>
  and the reshape of a column of \<open>n\<^sup>2\<close> entries to \<open>n\<close> by \<open>n\<close>, always have matching
  sizes.)
\<close>

definition size_m :: "cmat \<Rightarrow> nat" where
  "size_m A = length (concat A)"

definition reshape :: "nat \<Rightarrow> nat \<Rightarrow> cmat \<Rightarrow> cmat" where
  "reshape r c A = (let flat = concat A in mk_mat r c (\<lambda>i j. flat ! (i * c + j)))"

text \<open>\<^verbatim>\<open>np.zeros((n, m))\<close>\<close>

definition zeros :: "nat \<Rightarrow> nat \<Rightarrow> cmat" where
  "zeros n m = mk_mat n m (\<lambda>i j. 0)"

subsection \<open>The library call \<^verbatim>\<open>np.linalg.inv\<close>\<close>

text \<open>
  Modelled from the spec: \<^verbatim>\<open>np.linalg.inv\<close> is numpy's, not the notebook's. Section 4.1
  of the spec asks for \<open>invert(A)\<close>, failing with a singular-matrix error on a singular
  \<open>A\<close>; numpy does it with LAPACK's \<^verbatim>\<open>gesv\<close>, which solves \<open>A X = I\<close> by elimination
  and raises \<^verbatim>\<open>LinAlgError\<close> when no pivot is left. The model does the same in exact
  arithmetic: a linear system is a list of equations (coefficients, right-hand side);
  \<open>solve_sys\<close> eliminates the first unknown with the first equation whose leading
  coefficient is not zero, solves the rest and substitutes back; \<open>inv_m\<close> solves for
  the columns of the identity. It is proved below that \<open>inv_m\<close> returns the two-sided
  inverse and fails exactly on singular matrices, so the choice of pivots does not show
  in the result.
\<close>

fun ip :: "cvec \<Rightarrow> cvec \<Rightarrow> complex" where
  "ip (a # as) (b # bs) = a * b + ip as bs"
| "ip _ _ = 0"

fun pivot_ok :: "cvec \<times> complex \<Rightarrow> bool" where
  "pivot_ok (c # cs, d) = (c \<noteq> 0)"
| "pivot_ok ([], d) = False"

fun elim_eq :: "cvec \<times> complex \<Rightarrow> cvec \<times> complex \<Rightarrow> cvec \<times> complex" where
  "elim_eq (p # ps, b) (c # cs, d) = (map2 (\<lambda>x y. x - (c / p) * y) cs ps, d - (c / p) * b)"
| "elim_eq _ e = e"

fun back_subst :: "cvec \<times> complex \<Rightarrow> cvec \<Rightarrow> complex" where
  "back_subst (p # ps, b) xs = (b - ip ps xs) / p"
| "back_subst ([], b) xs = 0"

fun solve_sys :: "nat \<Rightarrow> (cvec \<times> complex) list \<Rightarrow> cvec option" where
  "solve_sys 0 eqs = Some []"
| "solve_sys (Suc n) eqs =
    (case List.extract pivot_ok eqs of
       None \<Rightarrow> None
     | Some (pre, piv, post) \<Rightarrow>
         (case solve_sys n (map (elim_eq piv) (pre @ post)) of
            None \<Rightarrow> None
          | Some xs \<Rightarrow> Some (back_subst piv xs # xs)))"

definition unit_vec :: "nat \<Rightarrow> nat \<Rightarrow> cvec" where
  "unit_vec n j = map (\<lambda>i. if i = j then 1 else 0) [0..<n]"

definition inv_m :: "cmat \<Rightarrow> error + cmat" where
  "inv_m A =
     (let n = length A in
      case those (map (\<lambda>j. solve_sys n (zip A (unit_vec n j))) [0..<n]) of
        None \<Rightarrow> Inl Singular_Matrix
      | Some cols \<Rightarrow> Inr (mk_mat n n (\<lambda>i j. cols ! j ! i)))"

subsection \<open>The functions of the notebook\<close>


text \<open>
  \<^verbatim>\<open>
  def direct_inverse(A, Q):
      n = A.shape[0]
      return np.linalg.inv(np.eye(n**2) - np.kron(A,A.conj())).dot(Q.reshape(Q.size, 1)).reshape(n,n)
  \<close>
  The inverse is computed first; then \<^verbatim>\<open>dot\<close> raises \<^verbatim>\<open>ValueError\<close> unless the column
  \<^verbatim>\<open>Q.reshape(Q.size, 1)\<close> has \<open>n\<^sup>2\<close> entries.
\<close>

definition direct_inverse :: "cmat \<Rightarrow> cmat \<Rightarrow> error + cmat" where
  "direct_inverse A Q =
     (let n = length A in
      case inv_m (mat_sub (eye (n ^ 2)) (kron A (conj_m A))) of
        Inl e \<Rightarrow> Inl e
      | Inr Minv \<Rightarrow>
          if size_m Q = n ^ 2
          then Inr (reshape n n (dot Minv (reshape (size_m Q) 1 Q)))
          else Inl Value_Error)"

text \<open>
  \<^verbatim>\<open>
  def bilinear1(A, Q):
      A = A.conj().T
      n = A.shape[0]
      eye = np.eye(n)
      B = np.linalg.inv(A - eye).dot(A + eye)
      res = linalg.solve_lyapunov(B.conj().T, -Q)
      return 0.5*(B - eye).conj().T.dot(res).dot(B - eye)
  \<close>
  \<^verbatim>\<open>scipy.linalg.solve_lyapunov\<close> is library code (a Schur decomposition and LAPACK's
  \<^verbatim>\<open>trsyl\<close>); it is the parameter \<open>lyap\<close>, which returns \<open>None\<close> when the library
  raises (as it does on arrays whose shapes do not match). What the theorems need of
  it is stated as a contract (\<open>lyap_exact\<close>, \<open>lyap_total\<close> below).
\<close>

definition bilinear1 :: "(cmat \<Rightarrow> cmat \<Rightarrow> cmat option) \<Rightarrow> cmat \<Rightarrow> cmat \<Rightarrow> error + cmat" where
  "bilinear1 lyap A0 Q =
     (let A = ctrans A0; n = length A; I = eye n in
      case inv_m (mat_sub A I) of
        Inl e \<Rightarrow> Inl e
      | Inr Ainv \<Rightarrow>
          (let B = dot Ainv (mat_add A I) in
           case lyap (ctrans B) (mat_neg Q) of
             None \<Rightarrow> Inl Lyapunov_Error
           | Some res \<Rightarrow>
               Inr (smult (1 / 2) (dot (dot (ctrans (mat_sub B I)) res) (mat_sub B I)))))"

text \<open>
  \<^verbatim>\<open>
  def bilinear2(A, Q):
      A = A.conj().T
      n = A.shape[0]
      eye = np.eye(n)
      AI_inv = np.linalg.inv(A + eye)
      B = (A - eye).dot(AI_inv)
      C = 2*np.linalg.inv(A.conj().T + eye).dot(Q).dot(AI_inv)
      return linalg.solve_lyapunov(B.conj().T, -C)
  \<close>
  After the second inversion the two calls of \<^verbatim>\<open>dot\<close> raise \<^verbatim>\<open>ValueError\<close> unless \<open>Q\<close>
  is an \<open>n\<close> by \<open>n\<close> array.
\<close>

definition bilinear2 :: "(cmat \<Rightarrow> cmat \<Rightarrow> cmat option) \<Rightarrow> cmat \<Rightarrow> cmat \<Rightarrow> error + cmat" where
  "bilinear2 lyap A0 Q =
     (let A = ctrans A0; n = length A; I = eye n in
      case inv_m (mat_add A I) of
        Inl e \<Rightarrow> Inl e
      | Inr AI_inv \<Rightarrow>
          (let B = dot (mat_sub A I) AI_inv in
           case inv_m (mat_add (ctrans A) I) of
             Inl e \<Rightarrow> Inl e
           | Inr AHI_inv \<Rightarrow>
               if is_mat n n Q
               then (let C = smult 2 (dot (dot AHI_inv Q) AI_inv) in
                     case lyap (ctrans B) (mat_neg C) of
                       None \<Rightarrow> Inl Lyapunov_Error
                     | Some res \<Rightarrow> Inr res)
               else Inl Value_Error))"

subsection \<open>The contract of \<^verbatim>\<open>solve_lyapunov\<close>\<close>

text \<open>
  scipy documents \<^verbatim>\<open>solve_lyapunov(a, q)\<close> as solving \<open>a X + X a\<^sup>H = q\<close>. The
  equation is regular at \<open>a\<close> when \<open>a Y + Y a\<^sup>H = 0\<close> has only the solution \<open>Y = 0\<close>;
  then it has exactly one solution for every \<open>q\<close>. On an equation that is not regular
  the library does not
  raise: it replaces the vanishing pivot by a tiny number, warns, and returns a matrix
  that need not solve the equation. So the contract has two parts, both about square
  arrays \<open>a\<close> and \<open>q\<close> of one dimension: \<open>lyap_exact\<close>, a returned array has the shape
  of \<open>q\<close> and, where the equation is regular, solves it; \<open>lyap_total\<close>, the solver
  returns.
\<close>

definition lyap_regular :: "nat \<Rightarrow> cmat \<Rightarrow> bool" where
  "lyap_regular n a = (\<forall>Y. is_mat n n Y \<and> mat_add (dot a Y) (dot Y (ctrans a)) = zeros n n \<longrightarrow>
      Y = zeros n n)"

definition lyap_exact :: "(cmat \<Rightarrow> cmat \<Rightarrow> cmat option) \<Rightarrow> bool" where
  "lyap_exact lyap = (\<forall>n a q X. is_mat n n a \<and> is_mat n n q \<and> lyap a q = Some X \<longrightarrow>
      is_mat n n X \<and> (lyap_regular n a \<longrightarrow> mat_add (dot a X) (dot X (ctrans a)) = q))"

definition lyap_total :: "(cmat \<Rightarrow> cmat \<Rightarrow> cmat option) \<Rightarrow> bool" where
  "lyap_total lyap = (\<forall>n a q. 0 < n \<and> is_mat n n a \<and> is_mat n n q \<longrightarrow> lyap a q \<noteq> None)"

text \<open>
  An instance of the contract, at which the theorems are evaluated on concrete inputs.
  It is not the algorithm of the library: it solves the vectorised equation
  \<open>(a \<otimes> I + I \<otimes> conj a) vec X = vec q\<close> exactly. It raises on arrays that are not square
  of one dimension. On an equation that is not regular, where the library returns a
  matrix with entries of the order of the reciprocal of its tiny pivot, which exact
  arithmetic cannot express, the instance returns the zero matrix; no theorem below
  states that value.
\<close>

definition lyap_op :: "cmat \<Rightarrow> cmat" where
  "lyap_op a = (let n = length a in mat_add (kron a (eye n)) (kron (eye n) (conj_m a)))"

definition solve_lyapunov :: "cmat \<Rightarrow> cmat \<Rightarrow> cmat option" where
  "solve_lyapunov a q =
     (let n = length a in
      if is_mat n n a \<and> is_mat n n q
      then (case inv_m (lyap_op a) of
              Inl e \<Rightarrow> Some (zeros n n)
            | Inr K \<Rightarrow> Some (reshape n n (dot K (reshape (size_m q) 1 q))))
      else None)"

subsection \<open>Notions of the specification\<close>

text \<open>The discrete Lyapunov equation \<open>S = T S T\<^sup>H + Q\<close>.\<close>

definition stein_eq :: "cmat \<Rightarrow> cmat \<Rightarrow> cmat \<Rightarrow> bool" where
  "stein_eq T Q S = (S = mat_add (dot (dot T S) (ctrans T)) Q)"

text \<open>
  The discrete equation is regular at \<open>T\<close> when \<open>X = T X T\<^sup>H\<close> has only the solution
  \<open>X = 0\<close>.
\<close>

definition stein_regular :: "nat \<Rightarrow> cmat \<Rightarrow> bool" where
  "stein_regular n T = (\<forall>X. is_mat n n X \<and> X = dot (dot T X) (ctrans T) \<longrightarrow> X = zeros n n)"

definition hermitian :: "cmat \<Rightarrow> bool" where
  "hermitian A = (ctrans A = A)"

definition mv :: "cmat \<Rightarrow> cvec \<Rightarrow> cvec" where
  "mv A x = map (\<lambda>r. ip r x) A"

text \<open>\<open>lam\<close> is an eigenvalue of \<open>T\<close>: some nonzero vector \<open>v\<close> has \<open>T v = lam v\<close>.\<close>

definition eigenvalue :: "cmat \<Rightarrow> complex \<Rightarrow> bool" where
  "eigenvalue T lam =
     (\<exists>v. length v = length T \<and> v \<noteq> replicate (length T) 0 \<and> mv T v = map ((*) lam) v)"

text \<open>
  The stability condition of the spec: the spectral radius of \<open>T\<close> is strictly less than
  \<open>1\<close>, that is, every eigenvalue of \<open>T\<close> has modulus less than \<open>1\<close>.
\<close>

definition stable :: "cmat \<Rightarrow> bool" where
  "stable T = (\<forall>lam. eigenvalue T lam \<longrightarrow> cmod lam < 1)"


text \<open>
  The spec's direct method of section 4.2, in its words: \<open>q\<close> is \<open>Q\<close> stacked column by
  column, and the solution vector is refilled column by column.
\<close>

definition vec_colmajor :: "cmat \<Rightarrow> cmat" where
  "vec_colmajor Q = (let n = length Q in mk_mat (n * ncols Q) 1 (\<lambda>r c. Q ! (r mod n) ! (r div n)))"

definition reshape_colmajor :: "nat \<Rightarrow> nat \<Rightarrow> cmat \<Rightarrow> cmat" where
  "reshape_colmajor r c v = (let flat = concat v in mk_mat r c (\<lambda>i j. flat ! (j * r + i)))"

definition direct_colmajor :: "cmat \<Rightarrow> cmat \<Rightarrow> error + cmat" where
  "direct_colmajor A Q =
     (let n = length A in
      case inv_m (mat_sub (eye (n ^ 2)) (kron A (conj_m A))) of
        Inl e \<Rightarrow> Inl e
      | Inr Minv \<Rightarrow> Inr (reshape_colmajor n n (dot Minv (vec_colmajor Q))))"

subsection \<open>Auxiliary notions of the proofs\<close>

definition wf_sys :: "nat \<Rightarrow> (cvec \<times> complex) list \<Rightarrow> bool" where
  "wf_sys n eqs = (\<forall>e \<in> set eqs. length (fst e) = n)"

definition sat :: "cvec \<Rightarrow> cvec \<times> complex \<Rightarrow> bool" where
  "sat x e = (ip (fst e) x = snd e)"

definition col_of :: "nat \<Rightarrow> cmat \<Rightarrow> nat \<Rightarrow> cvec" where
  "col_of n E j = map (\<lambda>k. E ! k ! j) [0..<n]"

definition stein_op :: "cmat \<Rightarrow> cmat" where
  "stein_op A = (let n = length A in mat_sub (eye (n ^ 2)) (kron A (conj_m A)))"

text \<open>
  Polynomials, for the eigenvalues: a polynomial is the list of its coefficients, the
  constant one first. \<open>peval\<close> is its value at a complex number, \<open>pm\<close> its value at a
  square matrix, \<open>pshift\<close> the polynomial shifted by a constant, \<open>hdiv\<close> the quotient
  and the remainder of the division by \<open>z - r\<close> (Horner's scheme).
\<close>

fun peval :: "cvec \<Rightarrow> complex \<Rightarrow> complex" where
  "peval [] z = 0"
| "peval (a # p) z = a + z * peval p z"

definition nz :: "cvec \<Rightarrow> bool" where
  "nz p = (\<exists>c \<in> set p. c \<noteq> 0)"

fun padd :: "cvec \<Rightarrow> cvec \<Rightarrow> cvec" where
  "padd [] q = q"
| "padd p [] = p"
| "padd (a # p) (b # q) = (a + b) # padd p q"

fun pshift :: "complex \<Rightarrow> cvec \<Rightarrow> cvec" where
  "pshift c [] = []"
| "pshift c (a # p) = padd [a] (padd (map ((*) c) (pshift c p)) (0 # pshift c p))"

fun hdiv :: "complex \<Rightarrow> cvec \<Rightarrow> cvec \<times> complex" where
  "hdiv r [] = ([], 0)"
| "hdiv r [a] = ([], a)"
| "hdiv r (a # b # p) = (case hdiv r (b # p) of (q, v) \<Rightarrow> (v # q, a + r * v))"

fun mpow :: "nat \<Rightarrow> cmat \<Rightarrow> nat \<Rightarrow> cmat" where
  "mpow n C 0 = eye n"
| "mpow n C (Suc k) = dot C (mpow n C k)"

fun pm :: "nat \<Rightarrow> cvec \<Rightarrow> cmat \<Rightarrow> cmat" where
  "pm n [] C = zeros n n"
| "pm n (a # p) C = mat_add (smult a (eye n)) (dot C (pm n p C))"

section \<open>The linear solver\<close>

text \<open>
  \<open>solve_sys\<close> is correct on systems whose equations all have \<open>n\<close> coefficients: a
  returned vector satisfies every equation (when there are at most \<open>n\<close> equations), it
  is the only solution, and when nothing is returned the homogeneous system has a
  nonzero solution.
\<close>

lemma ip_elim:
  "length cs = length ps \<Longrightarrow>
   ip (map2 (\<lambda>x y. x - k * y) cs ps) xs = ip cs xs - k * ip ps xs"
proof (induction cs ps arbitrary: xs rule: list_induct2)
  case Nil
  then show ?case by simp
next
  case (Cons c cs p ps)
  then show ?case by (cases xs) (simp_all add: algebra_simps)
qed

lemma wf_sys_elim:
  assumes "wf_sys (Suc n) eqs" "List.extract pivot_ok eqs = Some (pre, piv, post)"
  shows "wf_sys n (map (elim_eq piv) (pre @ post))"
proof -
  from assms(2) have eqs: "eqs = pre @ piv # post" and pk: "pivot_ok piv"
    by (auto simp: extract_Some_iff)
  obtain p ps b where piv: "piv = (p # ps, b)" and lps: "length ps = n"
    using assms(1) pk eqs by (cases piv; cases "fst piv") (auto simp: wf_sys_def)
  show ?thesis
    unfolding wf_sys_def
  proof
    fix e assume "e \<in> set (map (elim_eq piv) (pre @ post))"
    then obtain e0 where e0: "e0 \<in> set (pre @ post)" and e: "e = elim_eq piv e0" by auto
    from e0 eqs assms(1) have "length (fst e0) = Suc n" by (auto simp: wf_sys_def)
    then obtain c cs d where "e0 = (c # cs, d)" "length cs = n"
      by (cases e0; cases "fst e0") auto
    then show "length (fst e) = n" using e piv lps by simp
  qed
qed

lemma sat_elim:
  assumes "length cs = length ps" "p \<noteq> 0" "x0 = (b - ip ps xs) / p"
  shows "sat (x0 # xs) (c # cs, d) \<longleftrightarrow> sat xs (elim_eq (p # ps, b) (c # cs, d))"
proof -
  have A: "ip (map2 (\<lambda>x y. x - (c / p) * y) cs ps) xs = ip cs xs - (c / p) * ip ps xs"
    by (rule ip_elim[OF assms(1)])
  have b0: "b = p * x0 + ip ps xs"
    using assms(2,3) by (simp add: field_simps)
  have "sat xs (elim_eq (p # ps, b) (c # cs, d)) \<longleftrightarrow>
        ip cs xs - (c / p) * ip ps xs = d - (c / p) * b"
    unfolding sat_def by (simp only: elim_eq.simps fst_conv snd_conv A)
  also have "\<dots> \<longleftrightarrow> ip cs xs + ((c / p) * b - (c / p) * ip ps xs) = d"
    by (auto simp add: algebra_simps)
  also have "(c / p) * b - (c / p) * ip ps xs = c * x0"
    unfolding b0 using assms(2) by (simp add: field_simps)
  also have "ip cs xs + c * x0 = d \<longleftrightarrow> c * x0 + ip cs xs = d"
    by (simp add: add.commute)
  finally show ?thesis by (simp add: sat_def)
qed

lemma solve_sys_sound:
  "wf_sys n eqs \<Longrightarrow> length eqs \<le> n \<Longrightarrow> solve_sys n eqs = Some xs \<Longrightarrow>
   length xs = n \<and> (\<forall>e \<in> set eqs. sat xs e)"
proof (induction n arbitrary: eqs xs)
  case 0
  then show ?case by simp
next
  case (Suc n)
  from Suc.prems(3) obtain pre piv post ys where
    ex: "List.extract pivot_ok eqs = Some (pre, piv, post)"
    and rec: "solve_sys n (map (elim_eq piv) (pre @ post)) = Some ys"
    and xs: "xs = back_subst piv ys # ys"
    by (auto split: option.splits)
  from ex have eqs: "eqs = pre @ piv # post" and pk: "pivot_ok piv"
    by (auto simp: extract_Some_iff)
  obtain p ps b where piv: "piv = (p # ps, b)" and lps: "length ps = n" and p0: "p \<noteq> 0"
    using Suc.prems(1) pk eqs by (cases piv; cases "fst piv") (auto simp: wf_sys_def)
  have wf': "wf_sys n (map (elim_eq piv) (pre @ post))"
    by (rule wf_sys_elim[OF Suc.prems(1) ex])
  have len': "length (map (elim_eq piv) (pre @ post)) \<le> n"
    using Suc.prems(2) eqs by simp
  from Suc.IH[OF wf' len' rec] have lys: "length ys = n"
    and sat': "\<forall>e \<in> set (map (elim_eq piv) (pre @ post)). sat ys e" by auto
  have x0: "back_subst piv ys = (b - ip ps ys) / p" using piv by simp
  have satp: "sat xs piv" using piv p0 xs by (simp add: sat_def field_simps)
  have "sat xs e" if "e \<in> set (pre @ post)" for e
  proof -
    from that eqs Suc.prems(1) have "length (fst e) = Suc n" by (auto simp: wf_sys_def)
    then obtain c cs d where e: "e = (c # cs, d)" and lcs: "length cs = n"
      by (cases e; cases "fst e") auto
    from sat' that have "sat ys (elim_eq piv e)" by auto
    then show ?thesis
      using sat_elim[of cs ps p "back_subst piv ys" b ys c d] lcs lps p0 x0 piv e xs by simp
  qed
  with satp show ?case using xs lys eqs by auto
qed

lemma solve_sys_unique:
  "wf_sys n eqs \<Longrightarrow> solve_sys n eqs = Some xs \<Longrightarrow> length y = n \<Longrightarrow>
   (\<forall>e \<in> set eqs. sat y e) \<Longrightarrow> y = xs"
proof (induction n arbitrary: eqs xs y)
  case 0
  then show ?case by simp
next
  case (Suc n)
  from Suc.prems(2) obtain pre piv post ys where
    ex: "List.extract pivot_ok eqs = Some (pre, piv, post)"
    and rec: "solve_sys n (map (elim_eq piv) (pre @ post)) = Some ys"
    and xs: "xs = back_subst piv ys # ys"
    by (auto split: option.splits)
  from ex have eqs: "eqs = pre @ piv # post" and pk: "pivot_ok piv"
    by (auto simp: extract_Some_iff)
  obtain p ps b where piv: "piv = (p # ps, b)" and lps: "length ps = n" and p0: "p \<noteq> 0"
    using Suc.prems(1) pk eqs by (cases piv; cases "fst piv") (auto simp: wf_sys_def)
  obtain y0 yt where y: "y = y0 # yt" and lyt: "length yt = n"
    using Suc.prems(3) by (cases y) auto
  have wf': "wf_sys n (map (elim_eq piv) (pre @ post))"
    by (rule wf_sys_elim[OF Suc.prems(1) ex])
  have satp: "sat y piv" using Suc.prems(4) eqs by simp
  then have y0: "y0 = (b - ip ps yt) / p" using piv y p0 by (simp add: sat_def field_simps)
  have "sat yt (elim_eq piv e)" if "e \<in> set (pre @ post)" for e
  proof -
    from that eqs Suc.prems(1) have "length (fst e) = Suc n" by (auto simp: wf_sys_def)
    then obtain c cs d where e: "e = (c # cs, d)" and lcs: "length cs = n"
      by (cases e; cases "fst e") auto
    from Suc.prems(4) that eqs have "sat y e" by auto
    then show ?thesis
      using sat_elim[of cs ps p y0 b yt c d] lcs lps p0 y0 piv e y by simp
  qed
  then have "\<forall>e \<in> set (map (elim_eq piv) (pre @ post)). sat yt e" by auto
  from Suc.IH[OF wf' rec lyt this] have "yt = ys" .
  then show ?case using y y0 xs piv by simp
qed

lemma solve_sys_kernel:
  "wf_sys n eqs \<Longrightarrow> solve_sys n eqs = None \<Longrightarrow>
   \<exists>x. length x = n \<and> x \<noteq> replicate n 0 \<and> (\<forall>e \<in> set eqs. ip (fst e) x = 0)"
proof (induction n arbitrary: eqs)
  case 0
  then show ?case by simp
next
  case (Suc n)
  show ?case
  proof (cases "List.extract pivot_ok eqs")
    case None
    then have np: "\<forall>e \<in> set eqs. \<not> pivot_ok e" by (simp add: extract_None_iff)
    let ?x = "1 # replicate n (0::complex)"
    have z: "ip cs (replicate (length cs) 0) = 0" for cs
      by (induction cs) simp_all
    have "ip (fst e) ?x = 0" if "e \<in> set eqs" for e
    proof -
      from that Suc.prems(1) have "length (fst e) = Suc n" by (auto simp: wf_sys_def)
      then obtain c cs d where e: "e = (c # cs, d)" and lcs: "length cs = n"
        by (cases e; cases "fst e") auto
      with np that have "c = 0" by auto
      then show ?thesis using e lcs z[of cs] by simp
    qed
    then show ?thesis by (intro exI[of _ ?x]) auto
  next
    case (Some t)
    then obtain pre piv post where
      ex: "List.extract pivot_ok eqs = Some (pre, piv, post)" by (cases t) auto
    with Suc.prems(2) have rec: "solve_sys n (map (elim_eq piv) (pre @ post)) = None"
      by (auto split: option.splits)
    from ex have eqs: "eqs = pre @ piv # post" and pk: "pivot_ok piv"
      by (auto simp: extract_Some_iff)
    obtain p ps b where piv: "piv = (p # ps, b)" and lps: "length ps = n" and p0: "p \<noteq> 0"
      using Suc.prems(1) pk eqs by (cases piv; cases "fst piv") (auto simp: wf_sys_def)
    have wf': "wf_sys n (map (elim_eq piv) (pre @ post))"
      by (rule wf_sys_elim[OF Suc.prems(1) ex])
    from Suc.IH[OF wf' rec] obtain x where lx: "length x = n" and nz: "x \<noteq> replicate n 0"
      and ker: "\<forall>e \<in> set (map (elim_eq piv) (pre @ post)). ip (fst e) x = 0" by auto
    let ?x0 = "- ip ps x / p"
    let ?x = "?x0 # x"
    have kp: "ip (fst piv) ?x = 0" using piv p0 by simp
    have "ip (fst e) ?x = 0" if "e \<in> set (pre @ post)" for e
    proof -
      from that eqs Suc.prems(1) have "length (fst e) = Suc n" by (auto simp: wf_sys_def)
      then obtain c cs d where e: "e = (c # cs, d)" and lcs: "length cs = n"
        by (cases e; cases "fst e") auto
      have A: "ip (map2 (\<lambda>x y. x - (c / p) * y) cs ps) x = ip cs x - (c / p) * ip ps x"
        by (rule ip_elim) (simp add: lcs lps)
      from ker that have "ip (fst (elim_eq piv e)) x = 0" by auto
      then have "ip (map2 (\<lambda>x y. x - (c / p) * y) cs ps) x = 0"
        unfolding e piv by (simp only: elim_eq.simps fst_conv)
      with A have "ip cs x - (c / p) * ip ps x = 0" by (simp only:)
      then show ?thesis using e p0 by (simp add: field_simps)
    qed
    with kp have "\<forall>e \<in> set eqs. ip (fst e) ?x = 0" using eqs by auto
    moreover have "?x \<noteq> replicate (Suc n) 0" using nz by simp
    ultimately show ?thesis using lx by (intro exI[of _ ?x]) auto
  qed
qed

section \<open>Matrix algebra on lists of rows\<close>

text \<open>
  Entries of the array operations, and the laws of the product, of the sum and of the
  conjugate transpose on square matrices of one dimension.
\<close>

lemma is_mat_mk_mat [simp]: "is_mat n m (mk_mat n m f)"
  by (auto simp: is_mat_def mk_mat_def)

lemma mk_mat_nth [simp]: "i < n \<Longrightarrow> j < m \<Longrightarrow> mk_mat n m f ! i ! j = f i j"
  by (simp add: mk_mat_def)

lemma is_mat_length: "is_mat n m A \<Longrightarrow> length A = n"
  by (simp add: is_mat_def)

lemma is_mat_row: "is_mat n m A \<Longrightarrow> i < n \<Longrightarrow> length (A ! i) = m"
  by (simp add: is_mat_def)

lemma is_mat_ncols: "is_mat n m A \<Longrightarrow> 0 < n \<Longrightarrow> ncols A = m"
  by (cases A) (auto simp: is_mat_def ncols_def)

lemma is_mat_sq_ncols: "is_mat n n A \<Longrightarrow> ncols A = n"
  by (cases A) (auto simp: is_mat_def ncols_def)

lemma mat_eqI:
  assumes "is_mat n m A" "is_mat n m B"
    and "\<And>i j. i < n \<Longrightarrow> j < m \<Longrightarrow> A ! i ! j = B ! i ! j"
  shows "A = B"
proof (rule nth_equalityI)
  show "length A = length B" using assms by (simp add: is_mat_def)
next
  fix i assume i: "i < length A"
  then have i': "i < n" using assms(1) by (simp add: is_mat_def)
  show "A ! i = B ! i"
  proof (rule nth_equalityI)
    show "length (A ! i) = length (B ! i)"
      using assms(1,2) i' by (simp add: is_mat_row)
  next
    fix j assume "j < length (A ! i)"
    then have "j < m" using assms(1) i' by (simp add: is_mat_row)
    then show "A ! i ! j = B ! i ! j" using assms(3) i' by simp
  qed
qed

lemma is_mat_eye [simp]: "is_mat n n (eye n)"
  by (simp add: eye_def)

lemma eye_nth [simp]: "i < n \<Longrightarrow> j < n \<Longrightarrow> eye n ! i ! j = (if i = j then 1 else 0)"
  by (simp add: eye_def)

lemma is_mat_add [simp]: "is_mat n m A \<Longrightarrow> is_mat n m B \<Longrightarrow> is_mat n m (mat_add A B)"
  by (fastforce simp: is_mat_def mat_add_def in_set_zip)

lemma is_mat_sub [simp]: "is_mat n m A \<Longrightarrow> is_mat n m B \<Longrightarrow> is_mat n m (mat_sub A B)"
  by (fastforce simp: is_mat_def mat_sub_def in_set_zip)

lemma is_mat_neg [simp]: "is_mat n m A \<Longrightarrow> is_mat n m (mat_neg A)"
  by (auto simp: is_mat_def mat_neg_def)

lemma is_mat_smult [simp]: "is_mat n m A \<Longrightarrow> is_mat n m (smult c A)"
  by (auto simp: is_mat_def smult_def)

lemma is_mat_conj [simp]: "is_mat n m A \<Longrightarrow> is_mat n m (conj_m A)"
  by (auto simp: is_mat_def conj_m_def)

lemma is_mat_ctrans [simp]: "is_mat n n A \<Longrightarrow> is_mat n n (ctrans A)"
  using is_mat_sq_ncols[OF is_mat_conj, of n A] is_mat_length[OF is_mat_conj, of n n A]
  by (simp add: ctrans_def transpose_m_def)

lemma is_mat_dot [simp]: "is_mat n n A \<Longrightarrow> is_mat n n B \<Longrightarrow> is_mat n n (dot A B)"
  by (simp add: dot_def is_mat_sq_ncols is_mat_length)

lemma add_nth:
  "is_mat n m A \<Longrightarrow> is_mat n m B \<Longrightarrow> i < n \<Longrightarrow> j < m \<Longrightarrow>
   mat_add A B ! i ! j = A ! i ! j + B ! i ! j"
  by (simp add: mat_add_def is_mat_def)

lemma sub_nth:
  "is_mat n m A \<Longrightarrow> is_mat n m B \<Longrightarrow> i < n \<Longrightarrow> j < m \<Longrightarrow>
   mat_sub A B ! i ! j = A ! i ! j - B ! i ! j"
  by (simp add: mat_sub_def is_mat_def)

lemma neg_nth:
  "is_mat n m A \<Longrightarrow> i < n \<Longrightarrow> j < m \<Longrightarrow> mat_neg A ! i ! j = - (A ! i ! j)"
  by (simp add: mat_neg_def is_mat_def)

lemma smult_nth:
  "is_mat n m A \<Longrightarrow> i < n \<Longrightarrow> j < m \<Longrightarrow> smult c A ! i ! j = c * A ! i ! j"
  by (simp add: smult_def is_mat_def)

lemma conj_nth:
  "is_mat n m A \<Longrightarrow> i < n \<Longrightarrow> j < m \<Longrightarrow> conj_m A ! i ! j = cnj (A ! i ! j)"
  by (simp add: conj_m_def is_mat_def)

lemma ctrans_nth:
  "is_mat n n A \<Longrightarrow> i < n \<Longrightarrow> j < n \<Longrightarrow> ctrans A ! i ! j = cnj (A ! j ! i)"
  using is_mat_sq_ncols[OF is_mat_conj, of n A] is_mat_length[OF is_mat_conj, of n n A]
  by (simp add: ctrans_def transpose_m_def conj_nth[where n=n and m=n])

lemma dot_nth:
  "is_mat n n A \<Longrightarrow> is_mat n n B \<Longrightarrow> i < n \<Longrightarrow> j < n \<Longrightarrow>
   dot A B ! i ! j = (\<Sum>k<n. A ! i ! k * B ! k ! j)"
  by (simp add: dot_def is_mat_sq_ncols is_mat_length)

lemmas sq_nth = add_nth[where m=n and n=n] sub_nth[where m=n and n=n] neg_nth[where m=n and n=n]
  smult_nth[where m=n and n=n] conj_nth[where m=n and n=n] ctrans_nth[where n=n] dot_nth[where n=n]
  for n

lemma dot_assoc_sq:
  assumes "is_mat n n A" "is_mat n n B" "is_mat n n C"
  shows "dot (dot A B) C = dot A (dot B C)"
proof (rule mat_eqI[of n n])
  fix i j assume ij: "i < n" "j < n"
  have "dot (dot A B) C ! i ! j = (\<Sum>l<n. (\<Sum>k<n. A ! i ! k * B ! k ! l) * C ! l ! j)"
    using assms ij by (simp add: sq_nth[where n=n])
  also have "\<dots> = (\<Sum>l<n. \<Sum>k<n. A ! i ! k * (B ! k ! l * C ! l ! j))"
    by (simp add: sum_distrib_right mult.assoc)
  also have "\<dots> = (\<Sum>k<n. \<Sum>l<n. A ! i ! k * (B ! k ! l * C ! l ! j))"
    by (rule sum.swap)
  also have "\<dots> = (\<Sum>k<n. A ! i ! k * (\<Sum>l<n. B ! k ! l * C ! l ! j))"
    by (simp add: sum_distrib_left)
  also have "\<dots> = dot A (dot B C) ! i ! j"
    using assms ij by (simp add: sq_nth[where n=n])
  finally show "dot (dot A B) C ! i ! j = dot A (dot B C) ! i ! j" .
qed (use assms in \<open>simp_all add: sq_nth[where n=n]\<close>)

lemma dot_eye_left [simp]:
  assumes "is_mat n n A" shows "dot (eye n) A = A"
proof (rule mat_eqI[of n n])
  fix i j assume ij: "i < n" "j < n"
  have "dot (eye n) A ! i ! j = (\<Sum>k<n. (if i = k then 1 else 0) * A ! k ! j)"
    using assms ij by (simp add: sq_nth[where n=n])
  also have "\<dots> = (\<Sum>k<n. if k = i then A ! k ! j else 0)"
    by (rule sum.cong) auto
  also have "\<dots> = A ! i ! j" using ij by simp
  finally show "dot (eye n) A ! i ! j = A ! i ! j" .
qed (use assms in \<open>simp_all add: sq_nth[where n=n]\<close>)

lemma dot_eye_right [simp]:
  assumes "is_mat n n A" shows "dot A (eye n) = A"
proof (rule mat_eqI[of n n])
  fix i j assume ij: "i < n" "j < n"
  have "dot A (eye n) ! i ! j = (\<Sum>k<n. A ! i ! k * (if k = j then 1 else 0))"
    using assms ij by (simp add: sq_nth[where n=n])
  also have "\<dots> = (\<Sum>k<n. if k = j then A ! i ! k else 0)"
    by (rule sum.cong) auto
  also have "\<dots> = A ! i ! j" using ij by simp
  finally show "dot A (eye n) ! i ! j = A ! i ! j" .
qed (use assms in \<open>simp_all add: sq_nth[where n=n]\<close>)

lemma dot_add_left:
  assumes "is_mat n n A" "is_mat n n B" "is_mat n n C"
  shows "dot (mat_add A B) C = mat_add (dot A C) (dot B C)"
  by (rule mat_eqI[of n n]) (use assms in \<open>simp_all add: sq_nth[where n=n] sum.distrib algebra_simps\<close>)

lemma dot_add_right:
  assumes "is_mat n n A" "is_mat n n B" "is_mat n n C"
  shows "dot A (mat_add B C) = mat_add (dot A B) (dot A C)"
  by (rule mat_eqI[of n n]) (use assms in \<open>simp_all add: sq_nth[where n=n] sum.distrib algebra_simps\<close>)

lemma dot_sub_left:
  assumes "is_mat n n A" "is_mat n n B" "is_mat n n C"
  shows "dot (mat_sub A B) C = mat_sub (dot A C) (dot B C)"
  by (rule mat_eqI[of n n]) (use assms in \<open>simp_all add: sq_nth[where n=n] sum_subtractf algebra_simps\<close>)

lemma dot_sub_right:
  assumes "is_mat n n A" "is_mat n n B" "is_mat n n C"
  shows "dot A (mat_sub B C) = mat_sub (dot A B) (dot A C)"
  by (rule mat_eqI[of n n]) (use assms in \<open>simp_all add: sq_nth[where n=n] sum_subtractf algebra_simps\<close>)

lemma dot_smult_left:
  assumes "is_mat n n A" "is_mat n n B"
  shows "dot (smult c A) B = smult c (dot A B)"
  by (rule mat_eqI[of n n]) (use assms in \<open>simp_all add: sq_nth[where n=n] sum_distrib_left algebra_simps\<close>)

lemma dot_smult_right:
  assumes "is_mat n n A" "is_mat n n B"
  shows "dot A (smult c B) = smult c (dot A B)"
  by (rule mat_eqI[of n n]) (use assms in \<open>simp_all add: sq_nth[where n=n] sum_distrib_left algebra_simps\<close>)

lemma ctrans_dot:
  assumes "is_mat n n A" "is_mat n n B"
  shows "ctrans (dot A B) = dot (ctrans B) (ctrans A)"
  by (rule mat_eqI[of n n]) (use assms in \<open>simp_all add: sq_nth[where n=n] mult.commute\<close>)

lemma ctrans_add:
  assumes "is_mat n n A" "is_mat n n B"
  shows "ctrans (mat_add A B) = mat_add (ctrans A) (ctrans B)"
  by (rule mat_eqI[of n n]) (use assms in \<open>simp_all add: sq_nth[where n=n]\<close>)

lemma ctrans_sub:
  assumes "is_mat n n A" "is_mat n n B"
  shows "ctrans (mat_sub A B) = mat_sub (ctrans A) (ctrans B)"
  by (rule mat_eqI[of n n]) (use assms in \<open>simp_all add: sq_nth[where n=n]\<close>)

lemma ctrans_neg:
  assumes "is_mat n n A"
  shows "ctrans (mat_neg A) = mat_neg (ctrans A)"
  by (rule mat_eqI[of n n]) (use assms in \<open>simp_all add: sq_nth[where n=n]\<close>)

lemma ctrans_smult:
  assumes "is_mat n n A"
  shows "ctrans (smult c A) = smult (cnj c) (ctrans A)"
  by (rule mat_eqI[of n n]) (use assms in \<open>simp_all add: sq_nth[where n=n]\<close>)

lemma ctrans_ctrans [simp]:
  assumes "is_mat n n A"
  shows "ctrans (ctrans A) = A"
  by (rule mat_eqI[of n n]) (use assms in \<open>simp_all add: sq_nth[where n=n]\<close>)

lemma ctrans_eye [simp]: "ctrans (eye n) = eye n"
  by (rule mat_eqI[of n n]) (auto simp: sq_nth[where n=n])

section \<open>The inverse\<close>

text \<open>
  \<open>inv_m\<close> returns a two-sided inverse, and it fails, with the singular-matrix error,
  exactly on the matrices that send a nonzero vector to zero.
\<close>

lemma ip_sum: "length u = length v \<Longrightarrow> ip u v = (\<Sum>k<length u. u ! k * v ! k)"
proof (induction u v rule: list_induct2)
  case Nil
  then show ?case by simp
next
  case (Cons a u b v)
  then show ?case by (simp add: sum.lessThan_Suc_shift del: sum.lessThan_Suc)
qed

lemma mv_length [simp]: "length (mv A x) = length A"
  by (simp add: mv_def)

lemma mv_nth:
  "is_mat n m A \<Longrightarrow> length x = m \<Longrightarrow> i < n \<Longrightarrow> mv A x ! i = (\<Sum>k<m. A ! i ! k * x ! k)"
  by (simp add: mv_def is_mat_def ip_sum)

lemma those_Some:
  "those xs = Some ys \<Longrightarrow> length ys = length xs \<and> (\<forall>i<length xs. xs ! i = Some (ys ! i))"
proof (induction xs arbitrary: ys)
  case Nil
  then show ?case by simp
next
  case (Cons x xs)
  then show ?case
    by (auto split: option.splits simp: nth_Cons split: nat.splits)
qed

lemma those_None: "those xs = None \<Longrightarrow> \<exists>i<length xs. xs ! i = None"
proof (induction xs)
  case Nil
  then show ?case by simp
next
  case (Cons x xs)
  then show ?case
    by (cases x) (auto split: option.splits)
qed

lemma wf_sys_zip: "is_mat n n A \<Longrightarrow> wf_sys n (zip A b)"
  by (auto simp: wf_sys_def is_mat_def dest: set_zip_leftD)

lemma sat_zip_iff:
  assumes "length A = n" "length b = n"
  shows "(\<forall>e \<in> set (zip A b). sat x e) \<longleftrightarrow> (\<forall>i<n. ip (A ! i) x = b ! i)"
proof
  assume L: "\<forall>e \<in> set (zip A b). sat x e"
  show "\<forall>i<n. ip (A ! i) x = b ! i"
  proof (intro allI impI)
    fix i assume "i < n"
    then have "(A ! i, b ! i) \<in> set (zip A b)"
      using assms by (metis in_set_zip fst_conv snd_conv)
    with L show "ip (A ! i) x = b ! i" by (auto simp: sat_def)
  qed
next
  assume "\<forall>i<n. ip (A ! i) x = b ! i"
  then show "\<forall>e \<in> set (zip A b). sat x e"
    using assms by (auto simp: sat_def in_set_zip)
qed

lemma ker_zip_iff:
  assumes "length A = n" "length b = n"
  shows "(\<forall>e \<in> set (zip A b). ip (fst e) x = 0) \<longleftrightarrow> (\<forall>i<n. ip (A ! i) x = 0)"
proof
  assume L: "\<forall>e \<in> set (zip A b). ip (fst e) x = 0"
  show "\<forall>i<n. ip (A ! i) x = 0"
  proof (intro allI impI)
    fix i assume "i < n"
    then have "(A ! i, b ! i) \<in> set (zip A b)"
      using assms by (metis in_set_zip fst_conv snd_conv)
    with L show "ip (A ! i) x = 0" by fastforce
  qed
next
  assume "\<forall>i<n. ip (A ! i) x = 0"
  then show "\<forall>e \<in> set (zip A b). ip (fst e) x = 0"
    using assms by (auto simp: in_set_zip)
qed

lemma unit_vec_length [simp]: "length (unit_vec n j) = n"
  by (simp add: unit_vec_def)

lemma unit_vec_nth [simp]: "i < n \<Longrightarrow> unit_vec n j ! i = (if i = j then 1 else 0)"
  by (simp add: unit_vec_def)

lemma inv_m_cols:
  assumes A: "is_mat n n A" and inv: "inv_m A = Inr N"
  obtains cols where "length cols = n"
    and "\<And>j. j < n \<Longrightarrow> solve_sys n (zip A (unit_vec n j)) = Some (cols ! j)"
    and "N = mk_mat n n (\<lambda>i j. cols ! j ! i)"
proof -
  have n: "length A = n" using A by (simp add: is_mat_def)
  from inv obtain cols where
    th: "those (map (\<lambda>j. solve_sys n (zip A (unit_vec n j))) [0..<n]) = Some cols"
    and N: "N = mk_mat n n (\<lambda>i j. cols ! j ! i)"
    by (auto simp: inv_m_def n split: option.splits)
  from those_Some[OF th] have "length cols = n"
    and "\<And>j. j < n \<Longrightarrow> solve_sys n (zip A (unit_vec n j)) = Some (cols ! j)"
    by auto
  with N that show ?thesis by blast
qed

lemma inv_m_is_mat:
  assumes "is_mat n n A" "inv_m A = Inr N"
  shows "is_mat n n N"
  using inv_m_cols[OF assms] by (metis is_mat_mk_mat)

lemma inv_m_right:
  assumes A: "is_mat n n A" and inv: "inv_m A = Inr N"
  shows "dot A N = eye n"
proof -
  have n: "length A = n" using A by (simp add: is_mat_def)
  obtain cols where lc: "length cols = n"
    and sol: "\<And>j. j < n \<Longrightarrow> solve_sys n (zip A (unit_vec n j)) = Some (cols ! j)"
    and N: "N = mk_mat n n (\<lambda>i j. cols ! j ! i)"
    using inv_m_cols[OF A inv] by blast
  have NM: "is_mat n n N" using N by simp
  show ?thesis
  proof (rule mat_eqI[of n n])
    fix i j assume ij: "i < n" "j < n"
    have s: "length (cols ! j) = n \<and> (\<forall>e \<in> set (zip A (unit_vec n j)). sat (cols ! j) e)"
      by (rule solve_sys_sound[OF wf_sys_zip[OF A] _ sol[OF ij(2)] ]) (simp add: n)
    then have lcj: "length (cols ! j) = n" and "\<forall>i<n. ip (A ! i) (cols ! j) = unit_vec n j ! i"
      using sat_zip_iff[of A n "unit_vec n j" "cols ! j"] n by auto
    then have "ip (A ! i) (cols ! j) = (if i = j then 1 else 0)" using ij by simp
    moreover have "ip (A ! i) (cols ! j) = (\<Sum>k<n. A ! i ! k * cols ! j ! k)"
      using ip_sum[of "A ! i" "cols ! j"] is_mat_row[OF A ij(1)] lcj by simp
    moreover have "dot A N ! i ! j = (\<Sum>k<n. A ! i ! k * cols ! j ! k)"
      using A NM ij by (simp add: dot_nth[where n=n] N)
    ultimately show "dot A N ! i ! j = eye n ! i ! j" using ij by simp
  qed (use A NM in simp_all)
qed

lemma ip_add_right:
  "length x = length y \<Longrightarrow> ip r (map2 (+) x y) = ip r x + ip r y"
proof (induction x y arbitrary: r rule: list_induct2)
  case Nil
  then show ?case by simp
next
  case (Cons a x b y)
  then show ?case by (cases r) (simp_all add: algebra_simps)
qed

lemma inv_m_ker_trivial:
  assumes A: "is_mat n n A" and inv: "inv_m A = Inr N"
    and x: "length x = n" and ker: "\<forall>i<n. ip (A ! i) x = 0"
  shows "x = replicate n 0"
proof (cases n)
  case 0
  then show ?thesis using x by simp
next
  case (Suc n')
  have n: "length A = n" using A by (simp add: is_mat_def)
  obtain cols where lc: "length cols = n"
    and sol: "\<And>j. j < n \<Longrightarrow> solve_sys n (zip A (unit_vec n j)) = Some (cols ! j)"
    using inv_m_cols[OF A inv] by blast
  let ?c = "cols ! 0"
  have s0: "solve_sys n (zip A (unit_vec n 0)) = Some ?c" using sol Suc by simp
  have s: "length ?c = n \<and> (\<forall>e \<in> set (zip A (unit_vec n 0)). sat ?c e)"
    by (rule solve_sys_sound[OF wf_sys_zip[OF A] _ s0]) (simp add: n)
  then have lc0: "length ?c = n" and satc: "\<forall>i<n. ip (A ! i) ?c = unit_vec n 0 ! i"
    using sat_zip_iff[of A n "unit_vec n 0" ?c] n by auto
  let ?y = "map2 (+) x ?c"
  have "\<forall>i<n. ip (A ! i) ?y = unit_vec n 0 ! i"
    using ker satc ip_add_right[of x ?c] x lc0 by simp
  then have "\<forall>e \<in> set (zip A (unit_vec n 0)). sat ?y e"
    using sat_zip_iff[of A n "unit_vec n 0" ?y] n by simp
  moreover have "length ?y = n" using x lc0 by simp
  ultimately have "?y = ?c"
    using solve_sys_unique[OF wf_sys_zip[OF A] s0] by blast
  then have "\<forall>k<n. x ! k + ?c ! k = ?c ! k"
    using x lc0 by (metis (no_types, lifting) length_map length_zip min.idem nth_map nth_zip case_prod_conv)
  then have "\<forall>k<n. x ! k = 0" by simp
  then show ?thesis using x by (simp add: list_eq_iff_nth_eq)
qed

lemma inv_m_fail:
  assumes A: "is_mat n n A" and inv: "inv_m A = Inl e"
  shows "e = Singular_Matrix \<and>
         (\<exists>x. length x = n \<and> x \<noteq> replicate n 0 \<and> (\<forall>i<n. ip (A ! i) x = 0))"
proof -
  have n: "length A = n" using A by (simp add: is_mat_def)
  from inv have e: "e = Singular_Matrix"
    and th: "those (map (\<lambda>j. solve_sys n (zip A (unit_vec n j))) [0..<n]) = None"
    by (auto simp: inv_m_def n split: option.splits)
  from those_None[OF th] obtain j where "j < n"
    and "solve_sys n (zip A (unit_vec n j)) = None" by auto
  from solve_sys_kernel[OF wf_sys_zip[OF A] this(2)]
  obtain x where "length x = n" "x \<noteq> replicate n 0"
    "\<forall>e \<in> set (zip A (unit_vec n j)). ip (fst e) x = 0" by blast
  then show ?thesis using e ker_zip_iff[of A n "unit_vec n j" x] n by auto
qed

lemma ip_col_of:
  assumes "is_mat n n A" "is_mat n n E" "i < n" "j < n"
  shows "ip (A ! i) (col_of n E j) = dot A E ! i ! j"
  using assms ip_sum[of "A ! i" "col_of n E j"]
  by (simp add: dot_nth[where n=n] col_of_def is_mat_row)

lemma inv_m_left:
  assumes A: "is_mat n n A" and inv: "inv_m A = Inr N"
  shows "dot N A = eye n"
proof -
  have N: "is_mat n n N" by (rule inv_m_is_mat[OF A inv])
  have R: "dot A N = eye n" by (rule inv_m_right[OF A inv])
  let ?E = "mat_sub (dot N A) (eye n)"
  have E: "is_mat n n ?E" using A N by simp
  have "dot A ?E = mat_sub (dot A (dot N A)) (dot A (eye n))"
    using A N by (simp add: dot_sub_right[where n=n])
  also have "dot A (dot N A) = dot (dot A N) A"
    using A N by (simp add: dot_assoc_sq[where n=n])
  finally have AE: "dot A ?E = mat_sub A A" using R A by simp
  show ?thesis
  proof (rule mat_eqI[of n n])
    fix i j assume ij: "i < n" "j < n"
    have "\<forall>i<n. ip (A ! i) (col_of n ?E j) = 0"
      using ip_col_of[OF A E _ ij(2)] AE A by (simp add: sub_nth[where n=n and m=n] ij)
    then have "col_of n ?E j = replicate n 0"
      using inv_m_ker_trivial[OF A inv, of "col_of n ?E j"] by (simp add: col_of_def)
    then have "col_of n ?E j ! i = 0" using ij by simp
    then have "?E ! i ! j = 0" using ij by (simp add: col_of_def)
    then show "dot N A ! i ! j = eye n ! i ! j"
      using A N ij by (simp add: sub_nth[where n=n and m=n])
  qed (use A N in simp_all)
qed

lemma mv_zero_iff:
  assumes "is_mat n n A"
  shows "mv A x = replicate n 0 \<longleftrightarrow> (\<forall>i<n. ip (A ! i) x = 0)"
  using assms by (auto simp: mv_def is_mat_def list_eq_iff_nth_eq)

lemma inv_m_no_kernel:
  assumes A: "is_mat n n A" and N: "is_mat n n N" and L: "dot N A = eye n"
    and x: "length x = n" and ker: "mv A x = replicate n 0"
  shows "x = replicate n 0"
proof (rule nth_equalityI)
  show "length x = length (replicate n (0::complex))" using x by simp
next
  fix i assume "i < length x"
  then have i: "i < n" using x by simp
  have k0: "\<And>k. k < n \<Longrightarrow> (\<Sum>l<n. A ! k ! l * x ! l) = 0"
    using ker mv_nth[OF A x] by (metis nth_replicate)
  have "x ! i = (\<Sum>l<n. (if i = l then 1 else 0) * x ! l)"
    using i by (simp add: if_distrib[of "\<lambda>c. c * _"] cong: if_cong)
  also have "\<dots> = (\<Sum>l<n. dot N A ! i ! l * x ! l)"
    using L i by (intro sum.cong) auto
  also have "\<dots> = (\<Sum>l<n. (\<Sum>k<n. N ! i ! k * A ! k ! l) * x ! l)"
    using A N i by (intro sum.cong) (auto simp: dot_nth[where n=n])
  also have "\<dots> = (\<Sum>l<n. \<Sum>k<n. N ! i ! k * (A ! k ! l * x ! l))"
    by (simp add: sum_distrib_right mult.assoc)
  also have "\<dots> = (\<Sum>k<n. \<Sum>l<n. N ! i ! k * (A ! k ! l * x ! l))"
    by (rule sum.swap)
  also have "\<dots> = (\<Sum>k<n. N ! i ! k * (\<Sum>l<n. A ! k ! l * x ! l))"
    by (simp add: sum_distrib_left)
  also have "\<dots> = 0" using k0 by simp
  finally show "x ! i = replicate n 0 ! i" using i by simp
qed

lemma inv_m_singular_iff:
  assumes A: "is_mat n n A"
  shows "inv_m A = Inl Singular_Matrix \<longleftrightarrow>
         (\<exists>x. length x = n \<and> x \<noteq> replicate n 0 \<and> mv A x = replicate n 0)"
proof
  assume "inv_m A = Inl Singular_Matrix"
  from inv_m_fail[OF A this] show "\<exists>x. length x = n \<and> x \<noteq> replicate n 0 \<and> mv A x = replicate n 0"
    using mv_zero_iff[OF A] by auto
next
  assume "\<exists>x. length x = n \<and> x \<noteq> replicate n 0 \<and> mv A x = replicate n 0"
  then obtain x where x: "length x = n" "x \<noteq> replicate n 0" "mv A x = replicate n 0" by blast
  show "inv_m A = Inl Singular_Matrix"
  proof (cases "inv_m A")
    case (Inl e)
    then show ?thesis using inv_m_fail[OF A Inl] by simp
  next
    case (Inr N)
    from inv_m_no_kernel[OF A inv_m_is_mat[OF A Inr] inv_m_left[OF A Inr] x(1,3)] x(2)
    show ?thesis by simp
  qed
qed

lemma inv_m_succeeds:
  assumes A: "is_mat n n A" and N: "is_mat n n N" and L: "dot N A = eye n"
  shows "inv_m A = Inr N"
proof (cases "inv_m A")
  case (Inl e)
  from inv_m_fail[OF A Inl] obtain x where
    x: "length x = n" "x \<noteq> replicate n 0" "\<forall>i<n. ip (A ! i) x = 0" by blast
  then have "mv A x = replicate n 0" using mv_zero_iff[OF A] by simp
  from inv_m_no_kernel[OF A N L x(1) this] x(2) show ?thesis by simp
next
  case (Inr N')
  have N': "is_mat n n N'" by (rule inv_m_is_mat[OF A Inr])
  have "N = dot N (dot A N')" using inv_m_right[OF A Inr] N by simp
  also have "\<dots> = dot (dot N A) N'" using A N N' by (simp add: dot_assoc_sq[where n=n])
  also have "\<dots> = N'" using L N' by simp
  finally show ?thesis using Inr by simp
qed

section \<open>Kronecker products and row-major vectorisation\<close>

text \<open>
  With row-major flattening \<open>vec\<close>, the matrix \<open>I - kron(T, conj(T))\<close> acts on
  \<open>vec X\<close> as \<open>X \<mapsto> X - T X T\<^sup>H\<close> acts on \<open>X\<close>.
\<close>

lemma is_mat_dot_gen:
  "is_mat n m A \<Longrightarrow> is_mat m k B \<Longrightarrow> 0 < m \<Longrightarrow> is_mat n k (dot A B)"
  by (simp add: dot_def is_mat_ncols is_mat_length)

lemma dot_nth_gen:
  "is_mat n m A \<Longrightarrow> is_mat m k B \<Longrightarrow> 0 < m \<Longrightarrow> i < n \<Longrightarrow> j < k \<Longrightarrow>
   dot A B ! i ! j = (\<Sum>l<m. A ! i ! l * B ! l ! j)"
  by (simp add: dot_def is_mat_ncols is_mat_length)

lemma dot_assoc_gen:
  assumes "is_mat n m A" "is_mat m k B" "is_mat k l C" "0 < m" "0 < k"
  shows "dot (dot A B) C = dot A (dot B C)"
proof (rule mat_eqI[of n l])
  have AB: "is_mat n k (dot A B)" and BC: "is_mat m l (dot B C)"
    using assms by (auto intro: is_mat_dot_gen)
  show "is_mat n l (dot (dot A B) C)" "is_mat n l (dot A (dot B C))"
    using assms AB BC by (auto intro: is_mat_dot_gen)
  fix i j assume ij: "i < n" "j < l"
  have "dot (dot A B) C ! i ! j = (\<Sum>q<k. dot A B ! i ! q * C ! q ! j)"
    using dot_nth_gen[OF AB assms(3,5) ij] .
  also have "\<dots> = (\<Sum>q<k. (\<Sum>p<m. A ! i ! p * B ! p ! q) * C ! q ! j)"
    using dot_nth_gen[OF assms(1,2,4) ij(1)] by (intro sum.cong) auto
  also have "\<dots> = (\<Sum>q<k. \<Sum>p<m. A ! i ! p * (B ! p ! q * C ! q ! j))"
    by (simp add: sum_distrib_right mult.assoc)
  also have "\<dots> = (\<Sum>p<m. \<Sum>q<k. A ! i ! p * (B ! p ! q * C ! q ! j))"
    by (rule sum.swap)
  also have "\<dots> = (\<Sum>p<m. A ! i ! p * (\<Sum>q<k. B ! p ! q * C ! q ! j))"
    by (simp add: sum_distrib_left)
  also have "\<dots> = (\<Sum>p<m. A ! i ! p * dot B C ! p ! j)"
    using dot_nth_gen[OF assms(2,3,5) _ ij(2)] by (intro sum.cong) auto
  also have "\<dots> = dot A (dot B C) ! i ! j"
    using dot_nth_gen[OF assms(1) BC assms(4) ij] by simp
  finally show "dot (dot A B) C ! i ! j = dot A (dot B C) ! i ! j" .
qed

lemma dot_eye_left_gen:
  assumes "is_mat n k B" "0 < n" shows "dot (eye n) B = B"
proof (rule mat_eqI[of n k])
  show "is_mat n k (dot (eye n) B)" by (rule is_mat_dot_gen[OF is_mat_eye assms])
  show "is_mat n k B" by fact
  fix i j assume ij: "i < n" "j < k"
  have "dot (eye n) B ! i ! j = (\<Sum>l<n. eye n ! i ! l * B ! l ! j)"
    using dot_nth_gen[OF is_mat_eye assms(1,2) ij] .
  also have "\<dots> = (\<Sum>l<n. if l = i then B ! l ! j else 0)"
    using ij by (intro sum.cong) auto
  also have "\<dots> = B ! i ! j" using ij by simp
  finally show "dot (eye n) B ! i ! j = B ! i ! j" .
qed

lemma concat_length: "is_mat n m A \<Longrightarrow> length (concat A) = n * m"
proof (induction A arbitrary: n)
  case Nil
  then show ?case by (simp add: is_mat_def)
next
  case (Cons r A)
  then obtain n' where "n = Suc n'" "is_mat n' m A" "length r = m"
    by (cases n) (auto simp: is_mat_def)
  with Cons.IH[of n'] show ?case by simp
qed

lemma concat_nth:
  "is_mat n m A \<Longrightarrow> i < n \<Longrightarrow> j < m \<Longrightarrow> concat A ! (i * m + j) = A ! i ! j"
proof (induction A arbitrary: n i)
  case Nil
  then show ?case by (simp add: is_mat_def)
next
  case (Cons r A)
  then obtain n' where n: "n = Suc n'" "is_mat n' m A" "length r = m"
    by (cases n) (auto simp: is_mat_def)
  show ?case
  proof (cases i)
    case 0
    then show ?thesis using n Cons.prems by (simp add: nth_append)
  next
    case (Suc i')
    then have "i' < n'" using Cons.prems n by simp
    from Cons.IH[OF n(2) this Cons.prems(3)] show ?thesis
      using Suc n by (simp add: nth_append)
  qed
qed

lemma size_m_sq: "is_mat n n A \<Longrightarrow> size_m A = n * n"
  by (simp add: size_m_def concat_length)

lemma is_mat_reshape [simp]: "is_mat r c (reshape r c A)"
  by (simp add: reshape_def)

lemma reshape_nth:
  "i < r \<Longrightarrow> j < c \<Longrightarrow> reshape r c A ! i ! j = concat A ! (i * c + j)"
  by (simp add: reshape_def)

lemma flat_index: "i < n \<Longrightarrow> j < n \<Longrightarrow> i * n + j < n * n" for i j n :: nat
proof -
  assume i: "i < n" and j: "j < n"
  have "i * n + j < i * n + n" using j by simp
  also have "\<dots> = Suc i * n" by simp
  also have "\<dots> \<le> n * n" using i by (metis Suc_leI mult_le_mono1)
  finally show ?thesis .
qed

lemma vec_nth:
  assumes "is_mat n n X" "i < n" "j < n"
  shows "reshape (n * n) 1 X ! (i * n + j) ! 0 = X ! i ! j"
  using assms flat_index[of i n j] by (simp add: reshape_nth concat_nth)

lemma col_concat_nth:
  assumes "is_mat k 1 v" "r < k"
  shows "concat v ! r = v ! r ! 0"
  using concat_nth[OF assms(1,2), of 0] by simp

lemma reshape_vec:
  assumes "is_mat n n X"
  shows "reshape n n (reshape (n * n) 1 X) = X"
proof (rule mat_eqI[of n n])
  fix i j assume ij: "i < n" "j < n"
  have "reshape n n (reshape (n * n) 1 X) ! i ! j = concat (reshape (n * n) 1 X) ! (i * n + j)"
    using ij by (simp add: reshape_nth)
  also have "\<dots> = reshape (n * n) 1 X ! (i * n + j) ! 0"
    by (rule col_concat_nth[of "n * n"]) (use ij flat_index in auto)
  also have "\<dots> = X ! i ! j" by (rule vec_nth[OF assms ij])
  finally show "reshape n n (reshape (n * n) 1 X) ! i ! j = X ! i ! j" .
qed (use assms in simp_all)

lemma sum_div_mod:
  fixes f :: "nat \<Rightarrow> nat \<Rightarrow> complex"
  shows "(\<Sum>c<n * n. f (c div n) (c mod n)) = (\<Sum>k<n. \<Sum>l<n. f k l)"
proof -
  let ?g = "\<lambda>c. f (c div n) (c mod n)"
  have "(\<Sum>c<n * n. ?g c) = (\<Sum>k<n. sum ?g {k * n ..< k * n + n})"
    by (rule sum.nat_group[symmetric])
  also have "\<dots> = (\<Sum>k<n. \<Sum>l<n. f k l)"
  proof (rule sum.cong[OF refl])
    fix k assume "k \<in> {..<n}"
    have "sum ?g {k * n ..< k * n + n} = sum ?g {0 + k * n ..< n + k * n}"
      by (simp add: add.commute)
    also have "\<dots> = (\<Sum>l = 0..<n. ?g (l + k * n))"
      by (rule sum.shift_bounds_nat_ivl)
    also have "\<dots> = (\<Sum>l = 0..<n. f k l)"
      by (rule sum.cong) auto
    finally show "sum ?g {k * n ..< k * n + n} = (\<Sum>l<n. f k l)"
      by (simp add: atLeast0LessThan)
  qed
  finally show ?thesis .
qed

lemma is_mat_kron:
  assumes "is_mat n n A" "is_mat n n B"
  shows "is_mat (n * n) (n * n) (kron A B)"
  using assms by (simp add: kron_def is_mat_sq_ncols is_mat_length)

lemma kron_nth:
  assumes "is_mat n n A" "is_mat n n B" "r < n * n" "c < n * n"
  shows "kron A B ! r ! c = A ! (r div n) ! (c div n) * B ! (r mod n) ! (c mod n)"
  using assms by (simp add: kron_def is_mat_sq_ncols is_mat_length)

lemma is_mat_stein_op:
  assumes "is_mat n n T"
  shows "is_mat (n * n) (n * n) (stein_op T)"
  using assms is_mat_kron[OF assms is_mat_conj[OF assms] ]
  by (simp add: stein_op_def is_mat_length power2_eq_square)

lemma div_mod_less:
  fixes r n :: nat
  assumes "r < n * n"
  shows "r div n < n" "r mod n < n"
proof -
  have n: "0 < n" using assms by (cases n) auto
  show "r div n < n" using assms by (simp add: less_mult_imp_div_less)
  show "r mod n < n" using n by simp
qed

lemma stein_op_nth:
  assumes T: "is_mat n n T" and r: "r < n * n" and c: "c < n * n"
  shows "stein_op T ! r ! c =
         (if r = c then 1 else 0) - T ! (r div n) ! (c div n) * cnj (T ! (r mod n) ! (c mod n))"
proof -
  have K: "is_mat (n * n) (n * n) (kron T (conj_m T))"
    by (rule is_mat_kron[OF T is_mat_conj[OF T] ])
  have "stein_op T ! r ! c = eye (n * n) ! r ! c - kron T (conj_m T) ! r ! c"
    using sub_nth[OF is_mat_eye K r c] T by (simp add: stein_op_def is_mat_length power2_eq_square)
  also have "kron T (conj_m T) ! r ! c =
             T ! (r div n) ! (c div n) * conj_m T ! (r mod n) ! (c mod n)"
    by (rule kron_nth[OF T is_mat_conj[OF T] r c])
  also have "conj_m T ! (r mod n) ! (c mod n) = cnj (T ! (r mod n) ! (c mod n))"
    by (rule conj_nth[OF T div_mod_less(2)[OF r] div_mod_less(2)[OF c] ])
  finally show ?thesis using r c by simp
qed

lemma vec_nth':
  assumes X: "is_mat n n X" and c: "c < n * n"
  shows "reshape (n * n) 1 X ! c ! 0 = X ! (c div n) ! (c mod n)"
  using vec_nth[OF X div_mod_less[OF c] ] by simp

lemma stein_vec:
  assumes T: "is_mat n n T" and X: "is_mat n n X" and n: "0 < n"
  shows "dot (stein_op T) (reshape (n * n) 1 X) =
         reshape (n * n) 1 (mat_sub X (dot (dot T X) (ctrans T)))"
proof (rule mat_eqI[of "n * n" 1])
  have nn: "0 < n * n" using n by simp
  let ?M = "stein_op T"
  let ?R = "mat_sub X (dot (dot T X) (ctrans T))"
  have M: "is_mat (n * n) (n * n) ?M" by (rule is_mat_stein_op[OF T])
  have V: "is_mat (n * n) 1 (reshape (n * n) 1 X)" by simp
  have R: "is_mat n n ?R" using T X by simp
  show "is_mat (n * n) 1 (dot ?M (reshape (n * n) 1 X))"
    by (rule is_mat_dot_gen[OF M V nn])
  show "is_mat (n * n) 1 (reshape (n * n) 1 ?R)" by simp
  fix r j :: nat assume r: "r < n * n" and "j < 1"
  then have j: "j = 0" by simp
  let ?i = "r div n" and ?j = "r mod n"
  have ij: "?i < n" "?j < n" using div_mod_less[OF r] by auto
  have "dot ?M (reshape (n * n) 1 X) ! r ! 0 = (\<Sum>c<n * n. ?M ! r ! c * reshape (n * n) 1 X ! c ! 0)"
    by (rule dot_nth_gen[OF M V nn r]) simp
  also have "\<dots> = (\<Sum>c<n * n. ((if r = c then 1 else 0)
                  - T ! ?i ! (c div n) * cnj (T ! ?j ! (c mod n))) * X ! (c div n) ! (c mod n))"
    using stein_op_nth[OF T r] vec_nth'[OF X] by (intro sum.cong) auto
  also have "\<dots> = (\<Sum>c<n * n. (if c = r then X ! (c div n) ! (c mod n) else 0))
                 - (\<Sum>c<n * n. T ! ?i ! (c div n) * cnj (T ! ?j ! (c mod n)) * X ! (c div n) ! (c mod n))"
    unfolding sum_subtractf[symmetric] by (intro sum.cong) (auto simp: algebra_simps)
  also have "(\<Sum>c<n * n. (if c = r then X ! (c div n) ! (c mod n) else 0)) = X ! ?i ! ?j"
    using r by simp
  also have "(\<Sum>c<n * n. T ! ?i ! (c div n) * cnj (T ! ?j ! (c mod n)) * X ! (c div n) ! (c mod n))
             = (\<Sum>k<n. \<Sum>l<n. T ! ?i ! k * cnj (T ! ?j ! l) * X ! k ! l)"
    by (rule sum_div_mod[of "\<lambda>k l. T ! ?i ! k * cnj (T ! ?j ! l) * X ! k ! l"])
  also have "\<dots> = (\<Sum>l<n. \<Sum>k<n. T ! ?i ! k * cnj (T ! ?j ! l) * X ! k ! l)"
    by (rule sum.swap)
  also have "\<dots> = (\<Sum>l<n. (\<Sum>k<n. T ! ?i ! k * X ! k ! l) * cnj (T ! ?j ! l))"
    unfolding sum_distrib_right by (intro sum.cong refl) (simp add: mult_ac)
  also have "\<dots> = dot (dot T X) (ctrans T) ! ?i ! ?j"
    using T X ij by (simp add: sq_nth[where n=n])
  also have "X ! ?i ! ?j - dot (dot T X) (ctrans T) ! ?i ! ?j = ?R ! ?i ! ?j"
    using T X ij by (simp add: sq_nth[where n=n])
  also have "\<dots> = reshape (n * n) 1 ?R ! r ! 0"
    using vec_nth'[OF R r] by simp
  finally show "dot ?M (reshape (n * n) 1 X) ! r ! j = reshape (n * n) 1 ?R ! r ! j"
    using j by simp
qed

section \<open>The direct method\<close>

text \<open>
  A result of \<open>direct_inverse\<close> solves the discrete Lyapunov equation, and where
  \<open>direct_inverse\<close> succeeds the equation has no other solution.
\<close>

lemma is_mat_zeros [simp]: "is_mat n m (zeros n m)"
  by (simp add: zeros_def)

lemma zeros_nth [simp]: "i < n \<Longrightarrow> j < m \<Longrightarrow> zeros n m ! i ! j = 0"
  by (simp add: zeros_def)

lemma vec_reshape:
  assumes v: "is_mat (n * n) 1 v"
  shows "reshape (n * n) 1 (reshape n n v) = v"
proof (rule mat_eqI[of "n * n" 1])
  fix r j :: nat assume r: "r < n * n" and "j < 1"
  then have j: "j = 0" by simp
  have "reshape (n * n) 1 (reshape n n v) ! r ! 0 = reshape n n v ! (r div n) ! (r mod n)"
    by (rule vec_nth'[OF is_mat_reshape r])
  also have "\<dots> = concat v ! (r div n * n + r mod n)"
    using div_mod_less[OF r] by (simp add: reshape_nth)
  also have "\<dots> = v ! r ! 0"
    using col_concat_nth[OF v r] by simp
  finally show "reshape (n * n) 1 (reshape n n v) ! r ! j = v ! r ! j" using j by simp
qed (use v in simp_all)

lemma direct_inverse_cases:
  assumes T: "is_mat n n T" and Q: "is_mat n n Q"
  shows "direct_inverse T Q =
         (case inv_m (stein_op T) of Inl e \<Rightarrow> Inl e
          | Inr N \<Rightarrow> Inr (reshape n n (dot N (reshape (n * n) 1 Q))))"
  using T Q by (simp add: direct_inverse_def stein_op_def is_mat_length size_m_sq Let_def
      power2_eq_square cong: sum.case_cong)

lemma mat_sub_add_iff:
  assumes "is_mat n n S" "is_mat n n P" "is_mat n n Q"
  shows "mat_sub S P = Q \<longleftrightarrow> S = mat_add P Q"
proof
  assume h: "mat_sub S P = Q"
  show "S = mat_add P Q"
  proof (rule mat_eqI[of n n])
    fix i j assume ij: "i < n" "j < n"
    have "S ! i ! j - P ! i ! j = Q ! i ! j"
      using sub_nth[OF assms(1,2) ij] h by simp
    then show "S ! i ! j = mat_add P Q ! i ! j"
      using add_nth[OF assms(2,3) ij] by (simp add: algebra_simps)
  qed (use assms in simp_all)
next
  assume h: "S = mat_add P Q"
  show "mat_sub S P = Q"
  proof (rule mat_eqI[of n n])
    fix i j assume ij: "i < n" "j < n"
    have "S ! i ! j = P ! i ! j + Q ! i ! j"
      using add_nth[OF assms(2,3) ij] h by simp
    then show "mat_sub S P ! i ! j = Q ! i ! j"
      using sub_nth[OF assms(1,2) ij] by (simp add: algebra_simps)
  qed (use assms in simp_all)
qed

lemma is_mat_0: "is_mat 0 m A \<longleftrightarrow> A = []"
  by (auto simp: is_mat_def)

lemma direct_inverse_solves:
  assumes T: "is_mat n n T" and Q: "is_mat n n Q" and res: "direct_inverse T Q = Inr S"
  shows "is_mat n n S \<and> stein_eq T Q S"
proof (cases "n = 0")
  case True
  from res obtain v where "S = reshape n n v"
    by (auto simp: direct_inverse_cases[OF T Q] split: sum.splits)
  then have "is_mat n n S" by simp
  then have "S = []" "Q = []" using Q True by (simp_all add: is_mat_0)
  then show ?thesis using True
    by (simp add: stein_eq_def mat_add_def is_mat_0)
next
  case False
  then have n: "0 < n" and nn: "0 < n * n" by simp_all
  let ?M = "stein_op T" and ?q = "reshape (n * n) 1 Q"
  have M: "is_mat (n * n) (n * n) ?M" by (rule is_mat_stein_op[OF T])
  from res obtain N where inv: "inv_m ?M = Inr N"
    and S: "S = reshape n n (dot N ?q)"
    by (auto simp: direct_inverse_cases[OF T Q] split: sum.splits)
  have N: "is_mat (n * n) (n * n) N" by (rule inv_m_is_mat[OF M inv])
  have q: "is_mat (n * n) 1 ?q" by simp
  let ?v = "dot N ?q"
  have v: "is_mat (n * n) 1 ?v" by (rule is_mat_dot_gen[OF N q nn])
  have SM: "is_mat n n S" using S by simp
  have vecS: "reshape (n * n) 1 S = ?v" unfolding S by (rule vec_reshape[OF v])
  have "dot ?M ?v = dot (dot ?M N) ?q"
    by (rule dot_assoc_gen[OF M N q nn nn, symmetric])
  also have "\<dots> = ?q"
    using inv_m_right[OF M inv] dot_eye_left_gen[OF q nn] by simp
  finally have Mv: "dot ?M ?v = ?q" .
  let ?P = "dot (dot T S) (ctrans T)"
  have P: "is_mat n n ?P" using T SM by simp
  have "reshape (n * n) 1 (mat_sub S ?P) = ?q"
    using stein_vec[OF T SM n] vecS Mv by simp
  then have "reshape n n (reshape (n * n) 1 (mat_sub S ?P)) = reshape n n ?q" by simp
  then have "mat_sub S ?P = Q"
    using reshape_vec[OF Q] reshape_vec[of n "mat_sub S ?P"] SM P by simp
  then show ?thesis using mat_sub_add_iff[OF SM P Q] SM by (simp add: stein_eq_def)
qed

lemma direct_inverse_unique:
  assumes T: "is_mat n n T" and Q: "is_mat n n Q" and res: "direct_inverse T Q = Inr S"
    and S': "is_mat n n S'" and eq: "stein_eq T Q S'"
  shows "S' = S"
proof (cases "n = 0")
  case True
  then show ?thesis
    using S' direct_inverse_solves[OF T Q res] by (simp add: is_mat_0)
next
  case False
  then have n: "0 < n" and nn: "0 < n * n" by simp_all
  let ?M = "stein_op T" and ?q = "reshape (n * n) 1 Q"
  have M: "is_mat (n * n) (n * n) ?M" by (rule is_mat_stein_op[OF T])
  from res obtain N where inv: "inv_m ?M = Inr N"
    and S: "S = reshape n n (dot N ?q)"
    by (auto simp: direct_inverse_cases[OF T Q] split: sum.splits)
  have N: "is_mat (n * n) (n * n) N" by (rule inv_m_is_mat[OF M inv])
  let ?P = "dot (dot T S') (ctrans T)"
  let ?w = "reshape (n * n) 1 S'"
  have P: "is_mat n n ?P" using T S' by simp
  have w: "is_mat (n * n) 1 ?w" by simp
  have "mat_sub S' ?P = Q" using mat_sub_add_iff[OF S' P Q] eq by (simp add: stein_eq_def)
  then have Mw: "dot ?M ?w = ?q" using stein_vec[OF T S' n] by simp
  have "?w = dot (dot N ?M) ?w"
    using inv_m_left[OF M inv] dot_eye_left_gen[OF w nn] by simp
  also have "\<dots> = dot N (dot ?M ?w)" by (rule dot_assoc_gen[OF N M w nn nn])
  finally have "?w = dot N ?q" using Mw by simp
  then have "reshape n n ?w = S" using S by simp
  then show ?thesis using reshape_vec[OF S'] by simp
qed

section \<open>The instance of the continuous solver meets the contract\<close>

lemma vec_inj:
  assumes "is_mat n n X" "is_mat n n Y" "reshape (n * n) 1 X = reshape (n * n) 1 Y"
  shows "X = Y"
proof -
  have "X = reshape n n (reshape (n * n) 1 X)" by (rule reshape_vec[OF assms(1), symmetric])
  also have "\<dots> = reshape n n (reshape (n * n) 1 Y)" by (simp only: assms(3))
  also have "\<dots> = Y" by (rule reshape_vec[OF assms(2)])
  finally show ?thesis .
qed

lemma vec_solve_sound:
  assumes M: "is_mat (n * n) (n * n) M" and inv: "inv_m M = Inr N" and n: "0 < n"
  shows "dot M (reshape (n * n) 1 (reshape n n (dot N (reshape (n * n) 1 Q))))
         = reshape (n * n) 1 Q"
proof -
  have nn: "0 < n * n" using n by simp
  let ?q = "reshape (n * n) 1 Q"
  have N: "is_mat (n * n) (n * n) N" by (rule inv_m_is_mat[OF M inv])
  have q: "is_mat (n * n) 1 ?q" by simp
  have v: "is_mat (n * n) 1 (dot N ?q)" by (rule is_mat_dot_gen[OF N q nn])
  have "dot M (dot N ?q) = dot (dot M N) ?q"
    by (rule dot_assoc_gen[OF M N q nn nn, symmetric])
  also have "\<dots> = ?q"
    using inv_m_right[OF M inv] dot_eye_left_gen[OF q nn] by simp
  finally show ?thesis using vec_reshape[OF v] by simp
qed

lemma vec_solve_unique:
  assumes M: "is_mat (n * n) (n * n) M" and inv: "inv_m M = Inr N" and n: "0 < n"
    and S': "is_mat n n S'" and eq: "dot M (reshape (n * n) 1 S') = reshape (n * n) 1 Q"
  shows "S' = reshape n n (dot N (reshape (n * n) 1 Q))"
proof -
  have nn: "0 < n * n" using n by simp
  let ?w = "reshape (n * n) 1 S'"
  have N: "is_mat (n * n) (n * n) N" by (rule inv_m_is_mat[OF M inv])
  have w: "is_mat (n * n) 1 ?w" by simp
  have "?w = dot (dot N M) ?w"
    using inv_m_left[OF M inv] dot_eye_left_gen[OF w nn] by simp
  also have "\<dots> = dot N (dot M ?w)" by (rule dot_assoc_gen[OF N M w nn nn])
  finally have "?w = dot N (reshape (n * n) 1 Q)" using eq by simp
  then have "reshape n n ?w = reshape n n (dot N (reshape (n * n) 1 Q))" by simp
  then show ?thesis using reshape_vec[OF S'] by simp
qed

lemma is_mat_lyap_op:
  assumes "is_mat n n a"
  shows "is_mat (n * n) (n * n) (lyap_op a)"
  using is_mat_kron[OF assms is_mat_eye] is_mat_kron[OF is_mat_eye is_mat_conj[OF assms] ] assms
  by (simp add: lyap_op_def is_mat_length)

lemma lyap_op_nth:
  assumes a: "is_mat n n a" and r: "r < n * n" and c: "c < n * n"
  shows "lyap_op a ! r ! c =
         a ! (r div n) ! (c div n) * (if r mod n = c mod n then 1 else 0)
         + (if r div n = c div n then 1 else 0) * cnj (a ! (r mod n) ! (c mod n))"
proof -
  have K1: "is_mat (n * n) (n * n) (kron a (eye n))"
    by (rule is_mat_kron[OF a is_mat_eye])
  have K2: "is_mat (n * n) (n * n) (kron (eye n) (conj_m a))"
    by (rule is_mat_kron[OF is_mat_eye is_mat_conj[OF a] ])
  have "lyap_op a ! r ! c = kron a (eye n) ! r ! c + kron (eye n) (conj_m a) ! r ! c"
    using add_nth[OF K1 K2 r c] a by (simp add: lyap_op_def is_mat_length)
  also have "kron a (eye n) ! r ! c = a ! (r div n) ! (c div n) * eye n ! (r mod n) ! (c mod n)"
    by (rule kron_nth[OF a is_mat_eye r c])
  also have "kron (eye n) (conj_m a) ! r ! c
             = eye n ! (r div n) ! (c div n) * conj_m a ! (r mod n) ! (c mod n)"
    by (rule kron_nth[OF is_mat_eye is_mat_conj[OF a] r c])
  also have "conj_m a ! (r mod n) ! (c mod n) = cnj (a ! (r mod n) ! (c mod n))"
    by (rule conj_nth[OF a div_mod_less(2)[OF r] div_mod_less(2)[OF c] ])
  finally show ?thesis using div_mod_less[OF r] div_mod_less[OF c] by simp
qed

lemma lyap_vec:
  assumes a: "is_mat n n a" and X: "is_mat n n X" and n: "0 < n"
  shows "dot (lyap_op a) (reshape (n * n) 1 X) =
         reshape (n * n) 1 (mat_add (dot a X) (dot X (ctrans a)))"
proof (rule mat_eqI[of "n * n" 1])
  have nn: "0 < n * n" using n by simp
  let ?M = "lyap_op a"
  let ?R = "mat_add (dot a X) (dot X (ctrans a))"
  have M: "is_mat (n * n) (n * n) ?M" by (rule is_mat_lyap_op[OF a])
  have V: "is_mat (n * n) 1 (reshape (n * n) 1 X)" by simp
  have R: "is_mat n n ?R" using a X by simp
  show "is_mat (n * n) 1 (dot ?M (reshape (n * n) 1 X))"
    by (rule is_mat_dot_gen[OF M V nn])
  show "is_mat (n * n) 1 (reshape (n * n) 1 ?R)" by simp
  fix r j :: nat assume r: "r < n * n" and "j < 1"
  then have j: "j = 0" by simp
  let ?i = "r div n" and ?j = "r mod n"
  have ij: "?i < n" "?j < n" using div_mod_less[OF r] by auto
  have "dot ?M (reshape (n * n) 1 X) ! r ! 0 = (\<Sum>c<n * n. ?M ! r ! c * reshape (n * n) 1 X ! c ! 0)"
    by (rule dot_nth_gen[OF M V nn r]) simp
  also have "\<dots> = (\<Sum>c<n * n. (a ! ?i ! (c div n) * (if ?j = c mod n then 1 else 0)
                  + (if ?i = c div n then 1 else 0) * cnj (a ! ?j ! (c mod n)))
                  * X ! (c div n) ! (c mod n))"
    using lyap_op_nth[OF a r] vec_nth'[OF X] by (intro sum.cong) auto
  also have "\<dots> = (\<Sum>k<n. \<Sum>l<n. (a ! ?i ! k * (if ?j = l then 1 else 0)
                  + (if ?i = k then 1 else 0) * cnj (a ! ?j ! l)) * X ! k ! l)"
    by (rule sum_div_mod[of "\<lambda>k l. (a ! ?i ! k * (if ?j = l then 1 else 0)
                  + (if ?i = k then 1 else 0) * cnj (a ! ?j ! l)) * X ! k ! l"])
  also have "\<dots> = (\<Sum>k<n. \<Sum>l<n. (if l = ?j then a ! ?i ! k * X ! k ! l else 0))
                 + (\<Sum>k<n. \<Sum>l<n. (if k = ?i then X ! k ! l * cnj (a ! ?j ! l) else 0))"
    unfolding sum.distrib[symmetric] by (intro sum.cong refl) (auto simp: algebra_simps)
  also have "(\<Sum>k<n. \<Sum>l<n. (if l = ?j then a ! ?i ! k * X ! k ! l else 0))
             = (\<Sum>k<n. a ! ?i ! k * X ! k ! ?j)"
    using ij by simp
  also have "(\<Sum>k<n. \<Sum>l<n. (if k = ?i then X ! k ! l * cnj (a ! ?j ! l) else 0))
             = (\<Sum>k<n. if k = ?i then (\<Sum>l<n. X ! k ! l * cnj (a ! ?j ! l)) else 0)"
    by (intro sum.cong refl) simp
  also have "\<dots> = (\<Sum>l<n. X ! ?i ! l * cnj (a ! ?j ! l))"
    using ij by simp
  also have "(\<Sum>k<n. a ! ?i ! k * X ! k ! ?j) + (\<Sum>l<n. X ! ?i ! l * cnj (a ! ?j ! l)) = ?R ! ?i ! ?j"
    using a X ij by (simp add: sq_nth[where n=n])
  also have "\<dots> = reshape (n * n) 1 ?R ! r ! 0"
    using vec_nth'[OF R r] by simp
  finally show "dot ?M (reshape (n * n) 1 X) ! r ! j = reshape (n * n) 1 ?R ! r ! j"
    using j by simp
qed

lemma vec_kernel:
  assumes M: "is_mat (n * n) (n * n) M" and inv: "inv_m M = Inl e"
    and L: "\<And>X. is_mat n n X \<Longrightarrow> is_mat n n (L X)"
    and act: "\<And>X. is_mat n n X \<Longrightarrow> 0 < n \<Longrightarrow>
               dot M (reshape (n * n) 1 X) = reshape (n * n) 1 (L X)"
  shows "\<exists>X. is_mat n n X \<and> X \<noteq> zeros n n \<and> L X = zeros n n"
proof -
  from inv_m_fail[OF M inv] obtain x where lx: "length x = n * n"
    and nz: "x \<noteq> replicate (n * n) 0" and ker: "\<forall>r<n * n. ip (M ! r) x = 0" by blast
  have n: "0 < n" using lx nz by (cases n) auto
  have nn: "0 < n * n" using n by simp
  define X where "X = mk_mat n n (\<lambda>i j. x ! (i * n + j))"
  have XM: "is_mat n n X" by (simp add: X_def)
  have vx: "reshape (n * n) 1 X ! r ! 0 = x ! r" if r: "r < n * n" for r
    using vec_nth'[OF XM r] div_mod_less[OF r] by (simp add: X_def)
  have "reshape (n * n) 1 (L X) = reshape (n * n) 1 (zeros n n)"
  proof (rule mat_eqI[of "n * n" 1])
    fix r j :: nat assume r: "r < n * n" and "j < 1"
    then have j: "j = 0" by simp
    have V: "is_mat (n * n) 1 (reshape (n * n) 1 X)" by simp
    have "reshape (n * n) 1 (L X) ! r ! 0 = dot M (reshape (n * n) 1 X) ! r ! 0"
      using act[OF XM n] by simp
    also have "\<dots> = (\<Sum>c<n * n. M ! r ! c * reshape (n * n) 1 X ! c ! 0)"
      by (rule dot_nth_gen[OF M V nn r]) simp
    also have "\<dots> = (\<Sum>c<n * n. M ! r ! c * x ! c)"
      using vx by (intro sum.cong) auto
    also have "\<dots> = ip (M ! r) x"
      using ip_sum[of "M ! r" x] is_mat_row[OF M r] lx by simp
    also have "\<dots> = 0" using ker r by simp
    also have "0 = reshape (n * n) 1 (zeros n n) ! r ! 0"
      using vec_nth'[OF is_mat_zeros r] div_mod_less[OF r] by simp
    finally show "reshape (n * n) 1 (L X) ! r ! j = reshape (n * n) 1 (zeros n n) ! r ! j"
      using j by simp
  qed simp_all
  then have LX: "L X = zeros n n"
    by (rule vec_inj[rotated 2]) (use L[OF XM] in simp_all)
  have "X \<noteq> zeros n n"
  proof
    assume Xz: "X = zeros n n"
    have "x ! r = 0" if r: "r < n * n" for r
    proof -
      have "x ! r = reshape (n * n) 1 X ! r ! 0" using vx[OF r] by simp
      also have "\<dots> = 0"
        unfolding Xz using vec_nth'[OF is_mat_zeros r] div_mod_less[OF r] by simp
      finally show ?thesis .
    qed
    then have "x = replicate (n * n) 0" using lx by (simp add: list_eq_iff_nth_eq)
    with nz show False by simp
  qed
  with XM LX show ?thesis by blast
qed

lemma lyap_kernel:
  assumes a: "is_mat n n a" and inv: "inv_m (lyap_op a) = Inl e"
  shows "\<not> lyap_regular n a"
proof -
  have "\<exists>Y. is_mat n n Y \<and> Y \<noteq> zeros n n \<and> mat_add (dot a Y) (dot Y (ctrans a)) = zeros n n"
    by (rule vec_kernel[OF is_mat_lyap_op[OF a] inv]) (use a lyap_vec[OF a] in simp_all)
  then show ?thesis unfolding lyap_regular_def by blast
qed

lemma solve_lyapunov_cases:
  assumes a: "is_mat n n a" and q: "is_mat n n q"
  shows "solve_lyapunov a q =
         (case inv_m (lyap_op a) of Inl e \<Rightarrow> Some (zeros n n)
          | Inr K \<Rightarrow> Some (reshape n n (dot K (reshape (n * n) 1 q))))"
proof -
  have "length a = n" using a by (rule is_mat_length)
  then show ?thesis
    using a q by (simp add: solve_lyapunov_def size_m_sq Let_def cong: sum.case_cong)
qed

lemma solve_lyapunov_exact: "lyap_exact solve_lyapunov"
  unfolding lyap_exact_def
proof (intro allI impI, elim conjE)
  fix n a q X
  assume a: "is_mat n n a" and q: "is_mat n n q" and res: "solve_lyapunov a q = Some X"
  have XM: "is_mat n n X"
    using res by (auto simp: solve_lyapunov_cases[OF a q] split: sum.splits)
  have "mat_add (dot a X) (dot X (ctrans a)) = q" if reg: "lyap_regular n a"
  proof -
    from reg lyap_kernel[OF a] obtain K where inv: "inv_m (lyap_op a) = Inr K"
      by (cases "inv_m (lyap_op a)") auto
    with res have X: "X = reshape n n (dot K (reshape (n * n) 1 q))"
      by (simp add: solve_lyapunov_cases[OF a q])
    show ?thesis
    proof (cases "n = 0")
      case True
      then show ?thesis using XM q a by (simp add: is_mat_0 mat_add_def dot_def mk_mat_def)
    next
      case False
      then have n: "0 < n" by simp
      have "dot (lyap_op a) (reshape (n * n) 1 X) = reshape (n * n) 1 q"
        unfolding X by (rule vec_solve_sound[OF is_mat_lyap_op[OF a] inv n])
      then have "reshape (n * n) 1 (mat_add (dot a X) (dot X (ctrans a))) = reshape (n * n) 1 q"
        using lyap_vec[OF a XM n] by simp
      then show "mat_add (dot a X) (dot X (ctrans a)) = q"
        by (rule vec_inj[rotated 2]) (use a XM q in simp_all)
    qed
  qed
  with XM show "is_mat n n X \<and> (lyap_regular n a \<longrightarrow> mat_add (dot a X) (dot X (ctrans a)) = q)"
    by simp
qed

lemma solve_lyapunov_total: "lyap_total solve_lyapunov"
  unfolding lyap_total_def
  by (auto simp: solve_lyapunov_cases split: sum.splits)
section \<open>The bilinear variants\<close>

text \<open>
  The algebra of the two Cayley transforms: a solution of the continuous equation that
  the variant sets up gives a solution of the discrete equation.
\<close>

lemmas lin_nth = add_nth[where m=n and n=n] sub_nth[where m=n and n=n]
  neg_nth[where m=n and n=n] smult_nth[where m=n and n=n] for n

lemma bilinear1_algebra:
  assumes A: "is_mat n n A" and N: "is_mat n n N" and X: "is_mat n n X" and Q: "is_mat n n Q"
    and inv: "dot N (mat_sub A (eye n)) = eye n"
    and B: "B = dot N (mat_add A (eye n))"
    and lyap: "mat_add (dot (ctrans B) X) (dot X B) = mat_neg Q"
    and S: "S = smult (1/2) (dot (dot (ctrans (mat_sub B (eye n))) X) (mat_sub B (eye n)))"
  shows "S = mat_add (dot (dot (ctrans A) S) A) Q"
proof -
  let ?I = "eye n"
  have I: "is_mat n n ?I" by simp
  have cN: "is_mat n n (ctrans N)" and cA: "is_mat n n (ctrans A)" using A N by simp_all
  have "mat_sub (dot N A) N = ?I"
    using inv A N by (simp add: dot_sub_right[where n=n])
  then have NA: "dot N A = mat_add N ?I"
    using mat_sub_add_iff[of n "dot N A" N ?I] A N by simp
  have Beq: "B = mat_add ?I (smult 2 N)"
  proof -
    have "B = mat_add (mat_add N ?I) N"
      unfolding B using A N NA by (simp add: dot_add_right[where n=n])
    also have "\<dots> = mat_add ?I (smult 2 N)"
      by (rule mat_eqI[of n n]) (use N in \<open>simp_all add: lin_nth[where n=n]\<close>)
    finally show ?thesis .
  qed
  have BM: "is_mat n n B" unfolding Beq using N by simp
  have BI: "mat_sub B ?I = smult 2 N"
    unfolding Beq by (rule mat_eqI[of n n]) (use N in \<open>simp_all add: lin_nth[where n=n]\<close>)
  define NX where "NX = dot (ctrans N) X"
  define XN where "XN = dot X N"
  define NXN where "NXN = dot (dot (ctrans N) X) N"
  have M: "is_mat n n NX" "is_mat n n XN" "is_mat n n NXN"
    using N X by (simp_all add: NX_def XN_def NXN_def)
  have S2: "S = smult 2 NXN"
  proof -
    have "S = smult (1/2) (smult 2 (smult 2 NXN))"
      unfolding S BI NXN_def using N X cN
      by (simp add: ctrans_smult[where n=n] dot_smult_left[where n=n] dot_smult_right[where n=n])
    also have "\<dots> = smult 2 NXN"
      by (rule mat_eqI[of n n]) (use M in \<open>simp_all add: lin_nth[where n=n]\<close>)
    finally show ?thesis .
  qed
  have SM: "is_mat n n S" unfolding S2 using M by simp
  have AN: "dot (ctrans A) (ctrans N) = mat_add (ctrans N) ?I"
    using arg_cong[OF NA, of ctrans] A N
    by (simp add: ctrans_dot[where n=n] ctrans_add[where n=n])
  have "dot (dot (ctrans A) NXN) A = dot (dot (dot (dot (ctrans A) (ctrans N)) X) N) A"
    unfolding NXN_def using A N X cN cA by (simp add: dot_assoc_sq[where n=n])
  also have "\<dots> = dot (dot (dot (ctrans A) (ctrans N)) X) (dot N A)"
    using A N X cN cA by (simp add: dot_assoc_sq[where n=n])
  also have "\<dots> = dot (dot (mat_add (ctrans N) ?I) X) (mat_add N ?I)"
    unfolding AN NA ..
  also have "\<dots> = dot (mat_add NX X) (mat_add N ?I)"
    unfolding NX_def using N X cN by (simp add: dot_add_left[where n=n])
  also have "\<dots> = mat_add (mat_add NXN XN) (mat_add NX X)"
    unfolding NX_def XN_def NXN_def using N X cN
    by (simp add: dot_add_left[where n=n] dot_add_right[where n=n])
  finally have ASA: "dot (dot (ctrans A) S) A = smult 2 (mat_add (mat_add NXN XN) (mat_add NX X))"
    unfolding S2 using A M cA
    by (simp add: dot_smult_left[where n=n] dot_smult_right[where n=n])
  have cB: "ctrans B = mat_add ?I (smult 2 (ctrans N))"
    unfolding Beq using N by (simp add: ctrans_add[where n=n] ctrans_smult[where n=n])
  have L: "mat_add (mat_add X (smult 2 NX)) (mat_add X (smult 2 XN)) = mat_neg Q"
    using lyap unfolding cB unfolding Beq NX_def XN_def using N X cN
    by (simp add: dot_add_left[where n=n] dot_add_right[where n=n]
        dot_smult_left[where n=n] dot_smult_right[where n=n])
  show ?thesis
  proof (rule mat_eqI[of n n])
    show "is_mat n n S" by fact
    show "is_mat n n (mat_add (dot (dot (ctrans A) S) A) Q)" using A SM Q by simp
    fix i j assume ij: "i < n" "j < n"
    have "mat_add (mat_add X (smult 2 NX)) (mat_add X (smult 2 XN)) ! i ! j = mat_neg Q ! i ! j"
      using L by simp
    then have q: "Q ! i ! j = - (2 * X ! i ! j + 2 * NX ! i ! j + 2 * XN ! i ! j)"
      using X M Q ij by (simp add: lin_nth[where n=n] algebra_simps)
    have "mat_add (dot (dot (ctrans A) S) A) Q ! i ! j =
          2 * (NXN ! i ! j + XN ! i ! j + (NX ! i ! j + X ! i ! j)) + Q ! i ! j"
      unfolding ASA using X M Q ij by (simp add: lin_nth[where n=n])
    also have "\<dots> = 2 * NXN ! i ! j"
      unfolding q by (simp add: algebra_simps)
    also have "\<dots> = S ! i ! j"
      unfolding S2 using M ij by (simp add: lin_nth[where n=n])
    finally show "S ! i ! j = mat_add (dot (dot (ctrans A) S) A) Q ! i ! j" by simp
  qed
qed

lemma bilinear1_scale:
  assumes A: "is_mat n n A" and N: "is_mat n n N" and X: "is_mat n n X"
    and inv: "dot N (mat_sub A (eye n)) = eye n"
    and B: "B = dot N (mat_add A (eye n))"
    and S: "S = smult (1/2) (dot (dot (ctrans (mat_sub B (eye n))) X) (mat_sub B (eye n)))"
  shows "S = smult 2 (dot (dot (ctrans N) X) N)"
proof -
  let ?I = "eye n"
  have cN: "is_mat n n (ctrans N)" using N by simp
  have "mat_sub (dot N A) N = ?I"
    using inv A N by (simp add: dot_sub_right[where n=n])
  then have NA: "dot N A = mat_add N ?I"
    using mat_sub_add_iff[of n "dot N A" N ?I] A N by simp
  have "B = mat_add (mat_add N ?I) N"
    unfolding B using A N NA by (simp add: dot_add_right[where n=n])
  also have "\<dots> = mat_add ?I (smult 2 N)"
    by (rule mat_eqI[of n n]) (use N in \<open>simp_all add: lin_nth[where n=n]\<close>)
  finally have Beq: "B = mat_add ?I (smult 2 N)" .
  have BI: "mat_sub B ?I = smult 2 N"
    unfolding Beq by (rule mat_eqI[of n n]) (use N in \<open>simp_all add: lin_nth[where n=n]\<close>)
  define NXN where "NXN = dot (dot (ctrans N) X) N"
  have M: "is_mat n n NXN" using N X by (simp add: NXN_def)
  have "S = smult (1/2) (smult 2 (smult 2 NXN))"
    unfolding S BI NXN_def using N X cN
    by (simp add: ctrans_smult[where n=n] dot_smult_left[where n=n] dot_smult_right[where n=n])
  also have "\<dots> = smult 2 NXN"
    by (rule mat_eqI[of n n]) (use M in \<open>simp_all add: lin_nth[where n=n]\<close>)
  finally show ?thesis unfolding NXN_def .
qed

lemma bilinear2_algebra:
  assumes A: "is_mat n n A" and W: "is_mat n n W" and V: "is_mat n n V"
    and S: "is_mat n n S" and Q: "is_mat n n Q"
    and WP: "dot W (mat_add A (eye n)) = eye n"
    and PW: "dot (mat_add A (eye n)) W = eye n"
    and PV: "dot (mat_add (ctrans A) (eye n)) V = eye n"
    and B: "B = dot (mat_sub A (eye n)) W"
    and C: "C = smult 2 (dot (dot V Q) W)"
    and lyap: "mat_add (dot (ctrans B) S) (dot S B) = mat_neg C"
  shows "S = mat_add (dot (dot (ctrans A) S) A) Q"
proof -
  let ?I = "eye n"
  define P where "P = mat_add A ?I"
  define PH where "PH = ctrans P"
  define WH where "WH = ctrans W"
  have P: "is_mat n n P" and cA: "is_mat n n (ctrans A)" using A by (simp_all add: P_def)
  have PHm: "is_mat n n PH" and WHm: "is_mat n n WH" using P W by (simp_all add: PH_def WH_def)
  have PHeq: "PH = mat_add (ctrans A) ?I"
    unfolding PH_def P_def using A by (simp add: ctrans_add[where n=n])
  have WP': "dot W P = ?I" and PW': "dot P W = ?I" and PV': "dot PH V = ?I"
    using WP PW PV by (simp_all add: P_def PHeq)
  have PWH: "dot PH WH = ?I"
    using arg_cong[OF WP', of ctrans] W P by (simp add: ctrans_dot[where n=n] PH_def WH_def)
  have Beq: "B = mat_sub ?I (smult 2 W)"
  proof -
    have "mat_sub A ?I = mat_sub P (smult 2 ?I)"
      unfolding P_def by (rule mat_eqI[of n n]) (use A in \<open>simp_all add: lin_nth[where n=n]\<close>)
    then have "B = mat_sub (dot P W) (dot (smult 2 ?I) W)"
      unfolding B using P W by (simp add: dot_sub_left[where n=n])
    also have "\<dots> = mat_sub ?I (smult 2 W)"
      using W PW' by (simp add: dot_smult_left[where n=n])
    finally show ?thesis .
  qed
  have cB: "ctrans B = mat_sub ?I (smult 2 WH)"
    unfolding Beq WH_def using W by (simp add: ctrans_sub[where n=n] ctrans_smult[where n=n])
  define WS where "WS = dot WH S"
  define SW where "SW = dot S W"
  define VQW where "VQW = dot (dot V Q) W"
  have M: "is_mat n n WS" "is_mat n n SW" "is_mat n n VQW"
    using W V S Q WHm by (simp_all add: WS_def SW_def VQW_def)
  have L: "mat_add (mat_sub S (smult 2 WS)) (mat_sub S (smult 2 SW)) = mat_neg (smult 2 VQW)"
    using lyap unfolding cB C unfolding Beq WS_def SW_def VQW_def using W S WHm
    by (simp add: dot_sub_left[where n=n] dot_sub_right[where n=n]
        dot_smult_left[where n=n] dot_smult_right[where n=n])
  have E1: "mat_sub (mat_add WS SW) S = VQW"
  proof (rule mat_eqI[of n n])
    fix i j assume ij: "i < n" "j < n"
    have "mat_add (mat_sub S (smult 2 WS)) (mat_sub S (smult 2 SW)) ! i ! j
          = mat_neg (smult 2 VQW) ! i ! j" using L by simp
    then have "2 * VQW ! i ! j = 2 * (WS ! i ! j + SW ! i ! j - S ! i ! j)"
      using S M ij by (simp add: lin_nth[where n=n] algebra_simps)
    then have "VQW ! i ! j = WS ! i ! j + SW ! i ! j - S ! i ! j"
      by (metis mult_cancel_left zero_neq_numeral)
    then show "mat_sub (mat_add WS SW) S ! i ! j = VQW ! i ! j"
      using S M ij by (simp add: lin_nth[where n=n])
  qed (use S M in simp_all)
  have R: "dot (dot PH VQW) P = Q"
  proof -
    have "dot (dot PH VQW) P = dot (dot (dot (dot PH V) Q) W) P"
      unfolding VQW_def using PHm V Q W by (simp add: dot_assoc_sq[where n=n])
    also have "\<dots> = dot (dot (dot PH V) Q) (dot W P)"
      using PHm V Q W P by (simp add: dot_assoc_sq[where n=n])
    also have "\<dots> = Q" unfolding PV' WP' using Q by simp
    finally show ?thesis .
  qed
  have T1: "dot (dot PH WS) P = dot S P"
  proof -
    have "dot PH WS = dot (dot PH WH) S"
      unfolding WS_def using PHm WHm S by (simp add: dot_assoc_sq[where n=n])
    then show ?thesis unfolding PWH using S by simp
  qed
  have T2: "dot (dot PH SW) P = dot PH S"
  proof -
    have "dot (dot PH SW) P = dot (dot PH S) (dot W P)"
      unfolding SW_def using PHm W S P by (simp add: dot_assoc_sq[where n=n])
    then show ?thesis unfolding WP' using S PHm by simp
  qed
  have "dot (dot PH (mat_sub (mat_add WS SW) S)) P
        = mat_sub (mat_add (dot (dot PH WS) P) (dot (dot PH SW) P)) (dot (dot PH S) P)"
    using PHm M S P
    by (simp add: dot_sub_left[where n=n] dot_sub_right[where n=n]
        dot_add_left[where n=n] dot_add_right[where n=n])
  then have E2: "mat_sub (mat_add (dot S P) (dot PH S)) (dot (dot PH S) P) = Q"
    unfolding E1 R T1 T2 by simp
  define SA where "SA = dot S A"
  define AS where "AS = dot (ctrans A) S"
  define ASA where "ASA = dot (dot (ctrans A) S) A"
  have M2: "is_mat n n SA" "is_mat n n AS" "is_mat n n ASA"
    using A S cA by (simp_all add: SA_def AS_def ASA_def)
  have E3: "mat_sub (mat_add (mat_add SA S) (mat_add AS S))
              (mat_add (mat_add ASA SA) (mat_add AS S)) = Q"
    using E2 unfolding PHeq P_def SA_def AS_def ASA_def using A S cA
    by (simp add: dot_add_left[where n=n] dot_add_right[where n=n])
  show ?thesis
  proof (rule mat_eqI[of n n])
    show "is_mat n n S" by fact
    show "is_mat n n (mat_add (dot (dot (ctrans A) S) A) Q)" using A S Q by simp
    fix i j assume ij: "i < n" "j < n"
    have "mat_sub (mat_add (mat_add SA S) (mat_add AS S))
              (mat_add (mat_add ASA SA) (mat_add AS S)) ! i ! j = Q ! i ! j"
      using E3 by simp
    then have q: "Q ! i ! j = S ! i ! j - ASA ! i ! j"
      using S M2 ij by (simp add: lin_nth[where n=n] algebra_simps)
    have "mat_add (dot (dot (ctrans A) S) A) Q ! i ! j = ASA ! i ! j + Q ! i ! j"
      using M2 Q ij by (simp add: lin_nth[where n=n] ASA_def)
    also have "\<dots> = S ! i ! j" unfolding q by simp
    finally show "S ! i ! j = mat_add (dot (dot (ctrans A) S) A) Q ! i ! j" by simp
  qed
qed

lemma length_ctrans: "is_mat n n A \<Longrightarrow> length (ctrans A) = n"
  using is_mat_ctrans[of n A] by (simp add: is_mat_def)

lemma bilinear1_Inr:
  assumes T: "is_mat n n T" and res: "bilinear1 lyap T Q = Inr S"
  obtains N X where "inv_m (mat_sub (ctrans T) (eye n)) = Inr N"
    and "lyap (ctrans (dot N (mat_add (ctrans T) (eye n)))) (mat_neg Q) = Some X"
    and "S = smult (1 / 2)
           (dot (dot (ctrans (mat_sub (dot N (mat_add (ctrans T) (eye n))) (eye n))) X)
                (mat_sub (dot N (mat_add (ctrans T) (eye n))) (eye n)))"
  using res unfolding bilinear1_def Let_def length_ctrans[OF T]
  by (auto split: sum.splits option.splits)

lemma bilinear2_Inr:
  assumes T: "is_mat n n T" and res: "bilinear2 lyap T Q = Inr S"
  obtains W V where "inv_m (mat_add (ctrans T) (eye n)) = Inr W"
    and "inv_m (mat_add (ctrans (ctrans T)) (eye n)) = Inr V"
    and "lyap (ctrans (dot (mat_sub (ctrans T) (eye n)) W))
              (mat_neg (smult 2 (dot (dot V Q) W))) = Some S"
  using res unfolding bilinear2_def Let_def length_ctrans[OF T]
  by (auto split: sum.splits option.splits if_splits)

lemma stein_eq_ctrans:
  assumes T: "is_mat n n T" and Q: "is_mat n n Q" and S: "is_mat n n S"
    and h: "hermitian Q" and eq: "stein_eq T Q S"
  shows "stein_eq T Q (ctrans S)"
proof -
  have cT: "is_mat n n (ctrans T)" using T by simp
  have "ctrans S = ctrans (mat_add (dot (dot T S) (ctrans T)) Q)"
    using eq by (simp add: stein_eq_def)
  also have "\<dots> = mat_add (dot (dot T (ctrans S)) (ctrans T)) Q"
    using T Q S cT h
    by (simp add: ctrans_add[where n=n] ctrans_dot[where n=n] dot_assoc_sq[where n=n] hermitian_def)
  finally show ?thesis by (simp add: stein_eq_def)
qed

lemma direct_inverse_hermitian:
  assumes T: "is_mat n n T" and Q: "is_mat n n Q" and h: "hermitian Q"
    and res: "direct_inverse T Q = Inr S"
  shows "hermitian S"
proof -
  have S: "is_mat n n S" and eq: "stein_eq T Q S"
    using direct_inverse_solves[OF T Q res] by auto
  have "ctrans S = S"
    by (rule direct_inverse_unique[OF T Q res _ stein_eq_ctrans[OF T Q S h eq] ]) (use S in simp)
  then show ?thesis by (simp add: hermitian_def)
qed

section \<open>Every complex polynomial that is not constant has a root\<close>

text \<open>
  The existence of eigenvalues rests on the fundamental theorem of algebra, proved here
  for coefficient lists by the minimum-modulus argument: \<open>|p|\<close> grows at infinity, so it
  attains its minimum (a bounded sequence of complex numbers has a convergent
  subsequence), and at a point where \<open>p\<close> does not vanish \<open>|p|\<close> can be decreased by a
  step in the direction of a suitable root of a complex number.
\<close>

lemma nz_Cons: "nz (a # p) \<longleftrightarrow> a \<noteq> 0 \<or> nz p"
  by (auto simp: nz_def)

lemma peval_not_nz: "\<not> nz p \<Longrightarrow> peval p z = 0"
  by (induction p) (simp_all add: nz_Cons)

lemma peval_padd: "peval (padd p q) z = peval p z + peval q z"
  by (induction p q rule: padd.induct) (simp_all add: algebra_simps)

lemma peval_scale: "peval (map ((*) c) p) z = c * peval p z"
  by (induction p) (simp_all add: algebra_simps)

lemma peval_pshift: "peval (pshift c p) w = peval p (c + w)"
  by (induction p) (simp_all add: peval_padd peval_scale algebra_simps)

lemma pshift_Cons_ex: "\<exists>b q. pshift c (a # p) = b # q"
  by (cases "padd (map ((*) c) (pshift c p)) (0 # pshift c p)") simp_all

lemma peval_growth:
  "nz r \<Longrightarrow> \<exists>R. \<forall>z. R \<le> cmod z \<longrightarrow> d \<le> cmod (peval (a # r) z)"
proof (induction r arbitrary: a d)
  case Nil
  then show ?case by (simp add: nz_def)
next
  case (Cons b r)
  show ?case
  proof (cases "nz r")
    case True
    from Cons.IH[OF True, of "d + cmod a" b] obtain R where
      R: "\<And>z. R \<le> cmod z \<Longrightarrow> d + cmod a \<le> cmod (peval (b # r) z)" by blast
    have "d \<le> cmod (peval (a # b # r) z)" if z: "max R 1 \<le> cmod z" for z
    proof -
      let ?P = "peval (b # r) z"
      have 1: "d + cmod a \<le> cmod ?P" using R[of z] z by simp
      have "cmod ?P \<le> cmod z * cmod ?P"
        using z mult_right_mono[of 1 "cmod z" "cmod ?P"] by simp
      also have "\<dots> = cmod (z * ?P)" by (simp add: norm_mult)
      finally have 2: "d + cmod a \<le> cmod (z * ?P)" using 1 by simp
      have "cmod (z * ?P) - cmod a \<le> cmod (z * ?P + a)" by (rule norm_diff_ineq)
      then show ?thesis using 2 by (simp add: add.commute)
    qed
    then show ?thesis by blast
  next
    case False
    then have b: "b \<noteq> 0" using Cons.prems by (simp add: nz_Cons)
    have e: "peval (a # b # r) z = a + z * b" for z
      using peval_not_nz[OF False] by simp
    have "d \<le> cmod (peval (a # b # r) z)" if z: "(d + cmod a) / cmod b \<le> cmod z" for z
    proof -
      have "d + cmod a \<le> cmod z * cmod b"
        using z b by (simp add: divide_le_eq)
      also have "\<dots> = cmod (z * b)" by (simp add: norm_mult)
      finally have 2: "d + cmod a \<le> cmod (z * b)" .
      have "cmod (z * b) - cmod a \<le> cmod (z * b + a)" by (rule norm_diff_ineq)
      then show ?thesis unfolding e using 2 by (simp add: add.commute)
    qed
    then show ?thesis by blast
  qed
qed

lemma peval_isCont: "isCont (peval p) z"
proof (induction p)
  case Nil
  show ?case by simp
next
  case (Cons a p)
  have "peval (a # p) = (\<lambda>z. a + z * peval p z)" by (rule ext) simp
  then show ?case using Cons by simp
qed

lemma real_bw:
  fixes s :: "nat \<Rightarrow> real"
  assumes "\<And>n. \<bar>s n\<bar> \<le> R"
  shows "\<exists>f x. strict_mono (f :: nat \<Rightarrow> nat) \<and> (\<lambda>n. s (f n)) \<longlonglongrightarrow> x"
proof -
  obtain f :: "nat \<Rightarrow> nat" where f: "strict_mono f" "monoseq (\<lambda>n. s (f n))"
    using seq_monosub[of s] by blast
  have "Bseq (\<lambda>n. s (f n))" by (rule BseqI'[of _ R]) (simp add: assms)
  then have "convergent (\<lambda>n. s (f n))" using f(2) by (rule Bseq_monoseq_convergent)
  then show ?thesis using f(1) unfolding convergent_def by blast
qed

lemma complex_bw:
  assumes "\<And>n. cmod (s n) \<le> R"
  shows "\<exists>f z. strict_mono (f :: nat \<Rightarrow> nat) \<and> (\<lambda>n. s (f n)) \<longlonglongrightarrow> z"
proof -
  have "\<bar>Re (s n)\<bar> \<le> R" for n using abs_Re_le_cmod[of "s n"] assms[of n] by simp
  from real_bw[of "\<lambda>n. Re (s n)", OF this] obtain f x where
    f: "strict_mono (f :: nat \<Rightarrow> nat)" and x: "(\<lambda>n. Re (s (f n))) \<longlonglongrightarrow> x" by blast
  have "\<bar>Im (s (f n))\<bar> \<le> R" for n using abs_Im_le_cmod[of "s (f n)"] assms[of "f n"] by simp
  from real_bw[of "\<lambda>n. Im (s (f n))", OF this] obtain g y where
    g: "strict_mono (g :: nat \<Rightarrow> nat)" and y: "(\<lambda>n. Im (s (f (g n)))) \<longlonglongrightarrow> y" by blast
  have x': "(\<lambda>n. Re (s (f (g n)))) \<longlonglongrightarrow> x"
    using LIMSEQ_subseq_LIMSEQ[OF x g] by (simp add: comp_def)
  have "(\<lambda>n. Complex (Re (s (f (g n)))) (Im (s (f (g n))))) \<longlonglongrightarrow> Complex x y"
    by (rule tendsto_Complex[OF x' y])
  then have "(\<lambda>n. s ((f \<circ> g) n)) \<longlonglongrightarrow> Complex x y" by simp
  moreover have "strict_mono (f \<circ> g)" using f g by (rule strict_mono_o)
  ultimately show ?thesis by blast
qed

lemma peval_min:
  assumes r: "nz r"
  shows "\<exists>z0. \<forall>z. cmod (peval (a # r) z0) \<le> cmod (peval (a # r) z)"
proof -
  let ?P = "peval (a # r)"
  let ?S = "range (\<lambda>z. cmod (?P z))"
  define m where "m = Inf ?S"
  have ne: "?S \<noteq> {}" by simp
  have bd: "bdd_below ?S" by (rule bdd_belowI[of _ 0]) auto
  have low: "m \<le> cmod (?P z)" for z
    unfolding m_def by (rule cInf_lower[OF _ bd]) simp
  have "\<exists>z. cmod (?P z) < m + inverse (real (Suc n))" for n
  proof -
    have "Inf ?S < m + inverse (real (Suc n))" by (simp add: m_def)
    from cInf_lessD[OF ne this] show ?thesis by auto
  qed
  then obtain s where s: "\<And>n. cmod (?P (s n)) < m + inverse (real (Suc n))" by metis
  from peval_growth[OF r, of "m + 2" a] obtain R where
    R: "\<And>z. R \<le> cmod z \<Longrightarrow> m + 2 \<le> cmod (?P z)" by blast
  have sb: "cmod (s n) \<le> R" for n
  proof (rule ccontr)
    assume "\<not> cmod (s n) \<le> R"
    then have "m + 2 \<le> cmod (?P (s n))" using R[of "s n"] by simp
    moreover have "inverse (real (Suc n)) \<le> 1" by (simp add: inverse_le_1_iff)
    ultimately show False using s[of n] by simp
  qed
  from complex_bw[of s R, OF sb] obtain f z0 where
    f: "strict_mono (f :: nat \<Rightarrow> nat)" and lim: "(\<lambda>n. s (f n)) \<longlonglongrightarrow> z0" by blast
  have c: "(\<lambda>n. cmod (?P (s (f n)))) \<longlonglongrightarrow> cmod (?P z0)"
    by (rule tendsto_norm[OF isCont_tendsto_compose[OF peval_isCont lim] ])
  have up: "cmod (?P (s (f n))) \<le> m + inverse (real (Suc n))" for n
  proof -
    have "n \<le> f n" by (rule strict_mono_imp_increasing[OF f])
    then have "inverse (real (Suc (f n))) \<le> inverse (real (Suc n))" by simp
    then show ?thesis using s[of "f n"] by linarith
  qed
  have "(\<lambda>n. cmod (?P (s (f n)))) \<longlonglongrightarrow> m"
  proof (rule tendsto_sandwich[of "\<lambda>n. m" _ _ "\<lambda>n. m + inverse (real (Suc n))"])
    show "\<forall>\<^sub>F n in sequentially. m \<le> cmod (?P (s (f n)))" using low by simp
    show "\<forall>\<^sub>F n in sequentially. cmod (?P (s (f n))) \<le> m + inverse (real (Suc n))"
      using up by simp
    show "(\<lambda>n. m) \<longlonglongrightarrow> m" by simp
    show "(\<lambda>n. m + inverse (real (Suc n))) \<longlonglongrightarrow> m"
      by (rule LIMSEQ_inverse_real_of_nat_add)
  qed
  then have "cmod (?P z0) = m" using c LIMSEQ_unique by blast
  then show ?thesis using low by auto
qed

lemma peval_factor_power:
  "nz r \<Longrightarrow> \<exists>k a s. a \<noteq> 0 \<and> (\<forall>w. peval r w = w ^ k * (a + w * peval s w))"
proof (induction r)
  case Nil
  then show ?case by (simp add: nz_def)
next
  case (Cons b r)
  show ?case
  proof (cases "b = 0")
    case False
    have "\<forall>w. peval (b # r) w = w ^ 0 * (b + w * peval r w)" by simp
    with False show ?thesis by blast
  next
    case True
    then have "nz r" using Cons.prems by (simp add: nz_Cons)
    from Cons.IH[OF this] obtain k a s where
      a: "a \<noteq> 0" and e: "\<And>w. peval r w = w ^ k * (a + w * peval s w)" by blast
    have "\<forall>w. peval (b # r) w = w ^ Suc k * (a + w * peval s w)"
      using True e by simp
    with a show ?thesis by blast
  qed
qed

lemma peval_bounded:
  "\<exists>M. 0 \<le> M \<and> (\<forall>w. cmod w \<le> R \<longrightarrow> cmod (peval s w) \<le> M)"
proof (induction s)
  case Nil
  show ?case by (intro exI[of _ 0]) simp
next
  case (Cons a s)
  then obtain M where M: "0 \<le> M" "\<And>w. cmod w \<le> R \<Longrightarrow> cmod (peval s w) \<le> M" by blast
  have "cmod (peval (a # s) w) \<le> cmod a + \<bar>R\<bar> * M" if w: "cmod w \<le> R" for w
  proof -
    have "cmod (peval (a # s) w) \<le> cmod a + cmod (w * peval s w)"
      by (simp add: norm_triangle_ineq)
    also have "cmod (w * peval s w) = cmod w * cmod (peval s w)" by (simp add: norm_mult)
    also have "cmod w * cmod (peval s w) \<le> \<bar>R\<bar> * M"
      by (rule mult_mono) (use w M in auto)
    finally show ?thesis by simp
  qed
  moreover have "0 \<le> cmod a + \<bar>R\<bar> * M" using M(1) by simp
  ultimately show ?case by blast
qed

lemma complex_root_ex: "\<exists>v :: complex. v ^ Suc k = c"
proof -
  let ?v = "rcis (root (Suc k) (cmod c)) (Arg c / real (Suc k))"
  have r: "root (Suc k) (cmod c) ^ Suc k = cmod c" by (rule real_root_pow_pos2) simp_all
  have an: "real (Suc k) * (Arg c / real (Suc k)) = Arg c" by simp
  have "?v ^ Suc k = rcis (root (Suc k) (cmod c) ^ Suc k) (real (Suc k) * (Arg c / real (Suc k)))"
    by (rule DeMoivre2)
  also have "\<dots> = rcis (cmod c) (Arg c)" unfolding r an ..
  also have "\<dots> = c" by (rule rcis_cmod_Arg)
  finally show ?thesis by blast
qed

lemma peval_decrease:
  assumes c0: "c0 \<noteq> 0" and a: "a \<noteq> 0"
    and q: "\<And>w. q w = c0 + w ^ Suc k * (a + w * peval s w)"
  shows "\<exists>w. cmod (q w) < cmod c0"
proof -
  obtain v :: complex where v: "v ^ Suc k = - c0 / a" using complex_root_ex by blast
  obtain M where M: "0 \<le> M" "\<And>w. cmod w \<le> cmod v \<Longrightarrow> cmod (peval s w) \<le> M"
    using peval_bounded[of "cmod v" s] by blast
  define K where "K = cmod v * M / cmod a"
  have K: "0 \<le> K" using M(1) by (simp add: K_def)
  define t where "t = 1 / (K + 1)"
  have t: "0 < t" "t \<le> 1" using K by (simp_all add: t_def)
  have tK: "t * K < 1" using K by (simp add: t_def)
  define w where "w = of_real t * v"
  have cw: "cmod w = t * cmod v" using t by (simp add: w_def norm_mult)
  have wv: "cmod w \<le> cmod v"
    unfolding cw using t mult_right_mono[of t 1 "cmod v"] by simp
  define u where "u = t ^ Suc k"
  have tp: "0 < u" "u \<le> 1"
  proof -
    show "0 < u" unfolding u_def by (rule zero_less_power[OF t(1)])
    show "u \<le> 1" unfolding u_def by (rule power_le_one) (use t in simp_all)
  qed
  have "w ^ Suc k = of_real t ^ Suc k * v ^ Suc k"
    unfolding w_def by (rule power_mult_distrib)
  also have "of_real t ^ Suc k = (of_real u :: complex)"
    unfolding u_def by (rule of_real_power[symmetric])
  finally have pw: "w ^ Suc k = of_real u * (- c0 / a)" unfolding v .
  have "q w = c0 + of_real u * (- c0 / a) * (a + w * peval s w)"
    unfolding q pw ..
  also have "\<dots> = of_real (1 - u) * c0 - of_real u * (c0 / a) * (w * peval s w)"
    using a by (simp add: field_simps)
  finally have qw: "q w = of_real (1 - u) * c0 - of_real u * (c0 / a) * (w * peval s w)" .
  have "cmod (of_real (1 - u) * c0) = \<bar>1 - u\<bar> * cmod c0"
    by (simp only: norm_mult norm_of_real)
  then have n1: "cmod (of_real (1 - u) * c0) = (1 - u) * cmod c0"
    using tp by simp
  have b0: "cmod (w * peval s w) \<le> (t * cmod v) * M"
    unfolding norm_mult cw by (rule mult_left_mono) (use M(2)[OF wv] t in auto)
  have "cmod (of_real u * (c0 / a) * (w * peval s w))
        = (u * (cmod c0 / cmod a)) * cmod (w * peval s w)"
    using tp by (simp add: norm_mult norm_divide)
  also have "\<dots> \<le> (u * (cmod c0 / cmod a)) * ((t * cmod v) * M)"
    by (rule mult_left_mono[OF b0]) (use tp in simp)
  also have "\<dots> = u * (t * K) * cmod c0"
    using a by (simp add: K_def field_simps)
  finally have n2: "cmod (of_real u * (c0 / a) * (w * peval s w)) \<le> u * (t * K) * cmod c0" .
  have "cmod (q w) \<le> cmod (of_real (1 - u) * c0)
                      + cmod (of_real u * (c0 / a) * (w * peval s w))"
    unfolding qw by (rule norm_triangle_ineq4)
  also have "\<dots> \<le> (1 - u) * cmod c0 + u * (t * K) * cmod c0"
    using n1 n2 by linarith
  also have "\<dots> = (1 - u * (1 - t * K)) * cmod c0" by (simp add: algebra_simps)
  also have "\<dots> < 1 * cmod c0"
  proof (rule mult_strict_right_mono)
    have "0 < u * (1 - t * K)" using tp tK by simp
    then show "1 - u * (1 - t * K) < 1" by simp
    show "0 < cmod c0" using c0 by simp
  qed
  finally show ?thesis by auto
qed

theorem poly_root:
  assumes r: "nz r"
  shows "\<exists>z. peval (a # r) z = 0"
proof (rule ccontr)
  assume no: "\<not> (\<exists>z. peval (a # r) z = 0)"
  let ?P = "peval (a # r)"
  from peval_min[OF r, of a] obtain z0 where
    z0: "\<And>z. cmod (?P z0) \<le> cmod (?P z)" by blast
  obtain c0 q where q: "pshift z0 (a # r) = c0 # q" using pshift_Cons_ex by blast
  have sh: "peval (c0 # q) w = ?P (z0 + w)" for w
    using peval_pshift[of z0 "a # r" w] q by simp
  have c0: "c0 = ?P z0" using sh[of 0] by simp
  have c0nz: "c0 \<noteq> 0" using no c0 by auto
  have nq: "nz q"
  proof (rule ccontr)
    assume "\<not> nz q"
    then have const: "?P (z0 + w) = c0" for w
      using sh[of w] peval_not_nz[of q w] by simp
    from peval_growth[OF r, of "cmod c0 + 1" a] obtain R where
      R: "\<And>z. R \<le> cmod z \<Longrightarrow> cmod c0 + 1 \<le> cmod (?P z)" by blast
    have "R \<le> cmod (of_real \<bar>R\<bar> :: complex)" by simp
    from R[OF this] const[of "of_real \<bar>R\<bar> - z0"] show False by simp
  qed
  from peval_factor_power[OF nq] obtain k a' s where
    a': "a' \<noteq> 0" and e: "\<And>w. peval q w = w ^ k * (a' + w * peval s w)" by blast
  have "peval (c0 # q) w = c0 + w ^ Suc k * (a' + w * peval s w)" for w
    using e[of w] by simp
  from peval_decrease[OF c0nz a' this] obtain w where
    "cmod (peval (c0 # q) w) < cmod c0" by blast
  then have "cmod (?P (z0 + w)) < cmod (?P z0)" unfolding sh unfolding c0 .
  with z0[of "z0 + w"] show False by simp
qed

section \<open>Singularity, fixed points and eigenvalues\<close>

lemma inv_m_Inl: "inv_m A = Inl e \<Longrightarrow> e = Singular_Matrix"
  by (auto simp: inv_m_def Let_def split: option.splits)


lemma mat_add_zeros:
  assumes "is_mat n n P" shows "mat_add P (zeros n n) = P"
  by (rule mat_eqI[of n n]) (use assms in \<open>simp_all add: lin_nth[where n=n]\<close>)

lemma dot_zeros_mid:
  assumes "is_mat n n T" "is_mat n n U"
  shows "dot (dot T (zeros n n)) U = zeros n n"
  by (rule mat_eqI[of n n]) (use assms in \<open>simp_all add: sq_nth[where n=n]\<close>)

lemma stein_homogeneous_unique:
  assumes T: "is_mat n n T" and inv: "inv_m (stein_op T) = Inr N"
    and X: "is_mat n n X" and fp: "X = dot (dot T X) (ctrans T)"
  shows "X = zeros n n"
proof -
  let ?Z = "zeros n n"
  have Z: "is_mat n n ?Z" by simp
  obtain S where res: "direct_inverse T ?Z = Inr S"
    using inv by (simp add: direct_inverse_cases[OF T Z])
  have "stein_eq T ?Z X"
    unfolding stein_eq_def using mat_add_zeros[of n "dot (dot T X) (ctrans T)"] T X fp by simp
  then have 1: "X = S" by (rule direct_inverse_unique[OF T Z res X])
  have "stein_eq T ?Z ?Z"
    unfolding stein_eq_def using dot_zeros_mid[OF T is_mat_ctrans[OF T] ] mat_add_zeros[OF Z] by simp
  then have "?Z = S" by (rule direct_inverse_unique[OF T Z res Z])
  with 1 show ?thesis by simp
qed

lemma stein_kernel:
  assumes T: "is_mat n n T" and inv: "inv_m (stein_op T) = Inl e"
  shows "\<exists>X. is_mat n n X \<and> X \<noteq> zeros n n \<and> X = dot (dot T X) (ctrans T)"
proof -
  have "\<exists>X. is_mat n n X \<and> X \<noteq> zeros n n \<and> mat_sub X (dot (dot T X) (ctrans T)) = zeros n n"
    by (rule vec_kernel[OF is_mat_stein_op[OF T] inv]) (use T stein_vec[OF T] in simp_all)
  then obtain X where X: "is_mat n n X" "X \<noteq> zeros n n"
    and eq: "mat_sub X (dot (dot T X) (ctrans T)) = zeros n n" by blast
  let ?P = "dot (dot T X) (ctrans T)"
  have P: "is_mat n n ?P" using T X by simp
  from eq have "X = mat_add ?P (zeros n n)"
    using mat_sub_add_iff[OF X(1) P is_mat_zeros] by simp
  then have "X = ?P" using mat_add_zeros[OF P] by simp
  with X show ?thesis by blast
qed

lemma stein_regular_iff:
  assumes T: "is_mat n n T"
  shows "stein_regular n T \<longleftrightarrow> (\<exists>N. inv_m (stein_op T) = Inr N)"
proof (cases "inv_m (stein_op T)")
  case (Inl e)
  from stein_kernel[OF T Inl] Inl show ?thesis by (auto simp: stein_regular_def)
next
  case (Inr N)
  then show ?thesis using stein_homogeneous_unique[OF T Inr] by (auto simp: stein_regular_def)
qed


lemma nonzero_entry:
  assumes "length v = n" "v \<noteq> replicate n (0::complex)"
  shows "\<exists>i<n. v ! i \<noteq> 0"
  using assms by (auto simp: list_eq_iff_nth_eq)

lemma eig_entry:
  assumes T: "is_mat n n T" and v: "length v = n" and ev: "mv T v = map ((*) lam) v"
    and i: "i < n"
  shows "(\<Sum>k<n. T ! i ! k * v ! k) = lam * v ! i"
  using mv_nth[OF T v i] ev v i by simp

lemma eig_pair_fixed:
  assumes T: "is_mat n n T" and el: "eigenvalue T l" and em: "eigenvalue T m"
    and lm: "l * cnj m = 1"
  shows "\<exists>X. is_mat n n X \<and> X \<noteq> zeros n n \<and> X = dot (dot T X) (ctrans T)"
proof -
  have n: "length T = n" using T by (simp add: is_mat_def)
  from el obtain u where u: "length u = n" "u \<noteq> replicate n 0" "mv T u = map ((*) l) u"
    unfolding eigenvalue_def n by blast
  from em obtain v where v: "length v = n" "v \<noteq> replicate n 0" "mv T v = map ((*) m) v"
    unfolding eigenvalue_def n by blast
  define X where "X = mk_mat n n (\<lambda>i j. u ! i * cnj (v ! j))"
  have XM: "is_mat n n X" by (simp add: X_def)
  have fixp: "X = dot (dot T X) (ctrans T)"
  proof (rule mat_eqI[of n n])
    fix i j assume ij: "i < n" "j < n"
    have "dot (dot T X) (ctrans T) ! i ! j
          = (\<Sum>b<n. (\<Sum>a<n. T ! i ! a * X ! a ! b) * cnj (T ! j ! b))"
      using T XM ij by (simp add: sq_nth[where n=n])
    also have "\<dots> = (\<Sum>b<n. (\<Sum>a<n. T ! i ! a * u ! a) * cnj (T ! j ! b * v ! b))"
    proof (rule sum.cong[OF refl])
      fix b assume "b \<in> {..<n}"
      then have b: "b < n" by simp
      have "(\<Sum>a<n. T ! i ! a * X ! a ! b) = (\<Sum>a<n. T ! i ! a * u ! a * cnj (v ! b))"
        using b by (intro sum.cong) (auto simp: X_def)
      also have "\<dots> = (\<Sum>a<n. T ! i ! a * u ! a) * cnj (v ! b)"
        by (simp add: sum_distrib_right)
      finally show "(\<Sum>a<n. T ! i ! a * X ! a ! b) * cnj (T ! j ! b)
                    = (\<Sum>a<n. T ! i ! a * u ! a) * cnj (T ! j ! b * v ! b)"
        by (simp add: mult_ac)
    qed
    also have "\<dots> = (\<Sum>a<n. T ! i ! a * u ! a) * cnj (\<Sum>b<n. T ! j ! b * v ! b)"
      by (simp add: sum_distrib_left)
    also have "\<dots> = (l * u ! i) * cnj (m * v ! j)"
      using eig_entry[OF T u(1,3) ij(1)] eig_entry[OF T v(1,3) ij(2)] by simp
    also have "\<dots> = (l * cnj m) * (u ! i * cnj (v ! j))" by (simp add: mult_ac)
    also have "\<dots> = X ! i ! j" using lm ij by (simp add: X_def)
    finally show "X ! i ! j = dot (dot T X) (ctrans T) ! i ! j" by simp
  qed (use T XM in simp_all)
  obtain i where i: "i < n" "u ! i \<noteq> 0" using nonzero_entry[OF u(1,2)] by blast
  obtain j where j: "j < n" "v ! j \<noteq> 0" using nonzero_entry[OF v(1,2)] by blast
  have "X ! i ! j \<noteq> 0" using i j by (simp add: X_def)
  then have "X \<noteq> zeros n n" using i j by auto
  with XM fixp show ?thesis by blast
qed

lemma mv_shift:
  assumes T: "is_mat n n T" and x: "length x = n"
  shows "mv (mat_sub T (smult lam (eye n))) x = replicate n 0 \<longleftrightarrow> mv T x = map ((*) lam) x"
proof -
  let ?M = "mat_sub T (smult lam (eye n))"
  have M: "is_mat n n ?M" using T by simp
  have e: "mv ?M x ! i = mv T x ! i - lam * x ! i" if i: "i < n" for i
  proof -
    have "mv ?M x ! i = (\<Sum>k<n. ?M ! i ! k * x ! k)" by (rule mv_nth[OF M x i])
    also have "\<dots> = (\<Sum>k<n. T ! i ! k * x ! k - (if k = i then lam * x ! k else 0))"
      using T i by (intro sum.cong) (auto simp: lin_nth[where n=n] algebra_simps)
    also have "\<dots> = (\<Sum>k<n. T ! i ! k * x ! k) - lam * x ! i"
      using i by (simp add: sum_subtractf)
    finally show ?thesis using mv_nth[OF T x i] by simp
  qed
  show ?thesis
  proof
    assume h: "mv ?M x = replicate n 0"
    show "mv T x = map ((*) lam) x"
    proof (rule nth_equalityI)
      show "length (mv T x) = length (map ((*) lam) x)" using T x by (simp add: is_mat_def)
    next
      fix i assume "i < length (mv T x)"
      then have i: "i < n" using T by (simp add: is_mat_def)
      have "mv ?M x ! i = 0" using h i by simp
      then show "mv T x ! i = map ((*) lam) x ! i" using e[OF i] x i by simp
    qed
  next
    assume h: "mv T x = map ((*) lam) x"
    show "mv ?M x = replicate n 0"
    proof (rule nth_equalityI)
      show "length (mv ?M x) = length (replicate n (0::complex))" using M by (simp add: is_mat_def)
    next
      fix i assume "i < length (mv ?M x)"
      then have i: "i < n" using M by (simp add: is_mat_def)
      show "mv ?M x ! i = replicate n 0 ! i" using e[OF i] h x i by simp
    qed
  qed
qed

lemma eigenvalue_iff_singular:
  assumes T: "is_mat n n T"
  shows "eigenvalue T lam \<longleftrightarrow> inv_m (mat_sub T (smult lam (eye n))) = Inl Singular_Matrix"
proof -
  have n: "length T = n" using T by (simp add: is_mat_def)
  have M: "is_mat n n (mat_sub T (smult lam (eye n)))" using T by simp
  show ?thesis
    unfolding inv_m_singular_iff[OF M] eigenvalue_def n
    using mv_shift[OF T] by blast
qed

lemma shift_one:
  assumes "is_mat n n T" shows "mat_sub T (smult 1 (eye n)) = mat_sub T (eye n)"
  by (rule mat_eqI[of n n]) (use assms in \<open>simp_all add: lin_nth[where n=n]\<close>)

lemma shift_minus_one:
  assumes "is_mat n n T" shows "mat_sub T (smult (- 1) (eye n)) = mat_add T (eye n)"
  by (rule mat_eqI[of n n]) (use assms in \<open>simp_all add: lin_nth[where n=n]\<close>)

lemma inv_m_ctrans:
  assumes M: "is_mat n n M" and inv: "inv_m M = Inr N"
  shows "inv_m (ctrans M) = Inr (ctrans N)"
proof -
  have N: "is_mat n n N" by (rule inv_m_is_mat[OF M inv])
  have "dot (ctrans N) (ctrans M) = ctrans (dot M N)"
    using M N by (simp add: ctrans_dot[where n=n])
  also have "\<dots> = eye n" using inv_m_right[OF M inv] by simp
  finally show ?thesis
    using inv_m_succeeds[of n "ctrans M" "ctrans N"] M N by simp
qed

lemma inv_m_ctrans_fail:
  assumes M: "is_mat n n M"
  shows "inv_m (ctrans M) = Inl Singular_Matrix \<longleftrightarrow> inv_m M = Inl Singular_Matrix"
proof
  assume h: "inv_m (ctrans M) = Inl Singular_Matrix"
  show "inv_m M = Inl Singular_Matrix"
  proof (cases "inv_m M")
    case (Inl e)
    then show ?thesis using inv_m_Inl by blast
  next
    case (Inr N)
    from inv_m_ctrans[OF M Inr] h show ?thesis by simp
  qed
next
  assume h: "inv_m M = Inl Singular_Matrix"
  show "inv_m (ctrans M) = Inl Singular_Matrix"
  proof (cases "inv_m (ctrans M)")
    case (Inl e)
    then show ?thesis using inv_m_Inl by blast
  next
    case (Inr N)
    from inv_m_ctrans[OF is_mat_ctrans[OF M] Inr] h M show ?thesis by simp
  qed
qed

lemma eigenvalue_one_iff:
  assumes T: "is_mat n n T"
  shows "eigenvalue T 1 \<longleftrightarrow> inv_m (mat_sub (ctrans T) (eye n)) = Inl Singular_Matrix"
proof -
  have "mat_sub (ctrans T) (eye n) = ctrans (mat_sub T (eye n))"
    using T by (simp add: ctrans_sub[where n=n])
  then show ?thesis
    using eigenvalue_iff_singular[OF T, of 1] shift_one[OF T]
      inv_m_ctrans_fail[of n "mat_sub T (eye n)"] T by simp
qed

lemma eigenvalue_minus_one_iff:
  assumes T: "is_mat n n T"
  shows "eigenvalue T (- 1) \<longleftrightarrow> inv_m (mat_add (ctrans T) (eye n)) = Inl Singular_Matrix"
    and "eigenvalue T (- 1) \<longleftrightarrow> inv_m (mat_add (ctrans (ctrans T)) (eye n)) = Inl Singular_Matrix"
proof -
  have "mat_add (ctrans T) (eye n) = ctrans (mat_add T (eye n))"
    using T by (simp add: ctrans_add[where n=n])
  then show "eigenvalue T (- 1) \<longleftrightarrow> inv_m (mat_add (ctrans T) (eye n)) = Inl Singular_Matrix"
    using eigenvalue_iff_singular[OF T, of "- 1"] shift_minus_one[OF T]
      inv_m_ctrans_fail[of n "mat_add T (eye n)"] T by simp
  show "eigenvalue T (- 1) \<longleftrightarrow> inv_m (mat_add (ctrans (ctrans T)) (eye n)) = Inl Singular_Matrix"
    using eigenvalue_iff_singular[OF T, of "- 1"] shift_minus_one[OF T] T by simp
qed

section \<open>The index form of the direct method\<close>

lemma direct_inverse_index:
  assumes T: "is_mat n n T" and Q: "is_mat n n Q"
  shows "direct_inverse T Q =
         (case inv_m (mat_sub (eye (n * n)) (kron T (conj_m T))) of
            Inl e \<Rightarrow> Inl e
          | Inr N \<Rightarrow> Inr (mk_mat n n
              (\<lambda>i j. \<Sum>k<n. \<Sum>l<n. N ! (i * n + j) ! (k * n + l) * Q ! k ! l)))"
proof (cases "inv_m (stein_op T)")
  case (Inl e)
  then show ?thesis
    using T by (simp add: direct_inverse_cases[OF T Q] stein_op_def is_mat_length
        power2_eq_square)
next
  case (Inr N)
  let ?M = "stein_op T" and ?q = "reshape (n * n) 1 Q"
  have M: "is_mat (n * n) (n * n) ?M" by (rule is_mat_stein_op[OF T])
  have N: "is_mat (n * n) (n * n) N" by (rule inv_m_is_mat[OF M Inr])
  have q: "is_mat (n * n) 1 ?q" by simp
  have "reshape n n (dot N ?q)
        = mk_mat n n (\<lambda>i j. \<Sum>k<n. \<Sum>l<n. N ! (i * n + j) ! (k * n + l) * Q ! k ! l)"
  proof (rule mat_eqI[of n n])
    fix i j assume ij: "i < n" "j < n"
    then have nn: "0 < n * n" by (cases n) auto
    let ?r = "i * n + j"
    have r: "?r < n * n" by (rule flat_index[OF ij])
    have v: "is_mat (n * n) 1 (dot N ?q)" by (rule is_mat_dot_gen[OF N q nn])
    have "reshape n n (dot N ?q) ! i ! j = concat (dot N ?q) ! ?r"
      using ij by (simp add: reshape_nth)
    also have "\<dots> = dot N ?q ! ?r ! 0" by (rule col_concat_nth[OF v r])
    also have "\<dots> = (\<Sum>c<n * n. N ! ?r ! c * ?q ! c ! 0)"
      by (rule dot_nth_gen[OF N q nn r]) simp
    also have "\<dots> = (\<Sum>c<n * n. N ! ?r ! (c div n * n + c mod n) * Q ! (c div n) ! (c mod n))"
      using vec_nth'[OF Q] by (intro sum.cong) auto
    also have "\<dots> = (\<Sum>k<n. \<Sum>l<n. N ! ?r ! (k * n + l) * Q ! k ! l)"
      by (rule sum_div_mod[of "\<lambda>k l. N ! ?r ! (k * n + l) * Q ! k ! l"])
    finally show "reshape n n (dot N ?q) ! i ! j =
      mk_mat n n (\<lambda>i j. \<Sum>k<n. \<Sum>l<n. N ! (i * n + j) ! (k * n + l) * Q ! k ! l) ! i ! j"
      using ij by simp
  qed simp_all
  then show ?thesis
    using T Inr by (simp add: direct_inverse_cases[OF T Q] stein_op_def is_mat_length
        power2_eq_square)
qed

lemma direct_inverse_isl:
  assumes "size_m Q = size_m Q'"
  shows "isl (direct_inverse T Q) = isl (direct_inverse T Q')"
  using assms by (auto simp: direct_inverse_def Let_def split: sum.splits)

lemma direct_returns_regular:
  assumes T: "is_mat n n T" and Q: "is_mat n n Q" and res: "direct_inverse T Q = Inr S"
  shows "stein_regular n T"
proof -
  from res obtain N where "inv_m (stein_op T) = Inr N"
    by (auto simp: direct_inverse_cases[OF T Q] split: sum.splits)
  then show ?thesis using stein_regular_iff[OF T] by blast
qed

lemma regular_direct_returns:
  assumes T: "is_mat n n T" and Q: "is_mat n n Q" and reg: "stein_regular n T"
  shows "\<exists>S. direct_inverse T Q = Inr S"
proof -
  from reg stein_regular_iff[OF T] obtain N where "inv_m (stein_op T) = Inr N" by blast
  then show ?thesis by (simp add: direct_inverse_cases[OF T Q])
qed

lemma mat_add_left_cancel:
  assumes P: "is_mat n n P" and Q: "is_mat n n Q" and R: "is_mat n n R"
    and eq: "mat_add P Q = mat_add P R"
  shows "Q = R"
proof (rule mat_eqI[of n n])
  fix i j assume ij: "i < n" "j < n"
  have "mat_add P Q ! i ! j = mat_add P R ! i ! j" using eq by simp
  then show "Q ! i ! j = R ! i ! j" using P Q R ij by (simp add: lin_nth[where n=n])
qed (use Q R in simp_all)

lemma hermitian_solution_noise:
  assumes T: "is_mat n n T" and Q: "is_mat n n Q" and S: "is_mat n n S"
    and eq: "stein_eq T Q S" and hS: "hermitian S"
  shows "hermitian Q"
proof -
  let ?P = "dot (dot T S) (ctrans T)"
  have cT: "is_mat n n (ctrans T)" and cQ: "is_mat n n (ctrans Q)" using T Q by simp_all
  have P: "is_mat n n ?P" using T S by simp
  have "ctrans S = ctrans (mat_add ?P Q)" using eq by (simp add: stein_eq_def)
  also have "\<dots> = mat_add (dot (dot T (ctrans S)) (ctrans T)) (ctrans Q)"
    using T Q S cT
    by (simp add: ctrans_add[where n=n] ctrans_dot[where n=n] dot_assoc_sq[where n=n])
  finally have "S = mat_add ?P (ctrans Q)" using hS by (simp add: hermitian_def)
  then have "mat_add ?P Q = mat_add ?P (ctrans Q)" using eq by (simp add: stein_eq_def)
  then have "Q = ctrans Q" by (rule mat_add_left_cancel[OF P Q cQ])
  then show ?thesis by (simp add: hermitian_def)
qed
section \<open>Regularity of the continuous equation of the bilinear variants\<close>

text \<open>
  The continuous equation that a bilinear variant hands to the solver is regular
  exactly where the discrete equation is: the Cayley transform carries the solutions
  of \<open>X = T X T\<^sup>H\<close> to those of \<open>B\<^sup>H Y + Y B = 0\<close> and back. So where the discrete
  equation is regular, a solver that meets \<open>lyap_exact\<close> returns the solution.
\<close>

lemma mat_add_commute:
  assumes "is_mat n n A" "is_mat n n B"
  shows "mat_add A B = mat_add B A"
  by (rule mat_eqI[of n n]) (use assms in \<open>simp_all add: lin_nth[where n=n]\<close>)

lemma mat_neg_zeros: "mat_neg (zeros n n) = zeros n n"
  by (rule mat_eqI[of n n]) (simp_all add: lin_nth[where n=n])

lemma smult_zeros: "smult c (zeros n n) = zeros n n"
  by (rule mat_eqI[of n n]) (simp_all add: lin_nth[where n=n])

lemma smult_eq_zeros:
  assumes c: "c \<noteq> 0" and M: "is_mat n n M" and z: "smult c M = zeros n n"
  shows "M = zeros n n"
proof (rule mat_eqI[of n n])
  fix i j assume ij: "i < n" "j < n"
  have "smult c M ! i ! j = 0" using z ij by simp
  then show "M ! i ! j = zeros n n ! i ! j" using M ij c by (simp add: lin_nth[where n=n])
qed (use M in simp_all)

lemma sandwich_inverse:
  assumes N: "is_mat n n N" and P: "is_mat n n P" and Y: "is_mat n n Y"
    and NP: "dot N P = eye n"
  shows "dot (dot (ctrans P) (dot (dot (ctrans N) Y) N)) P = Y"
proof -
  have cN: "is_mat n n (ctrans N)" and cP: "is_mat n n (ctrans P)" using N P by simp_all
  have PN: "dot (ctrans P) (ctrans N) = eye n"
    using arg_cong[OF NP, of ctrans] N P by (simp add: ctrans_dot[where n=n])
  have "dot (dot (ctrans P) (dot (dot (ctrans N) Y) N)) P
        = dot (dot (dot (dot (ctrans P) (ctrans N)) Y) N) P"
    using cN cP Y N by (simp add: dot_assoc_sq[where n=n])
  also have "\<dots> = dot (dot (dot (ctrans P) (ctrans N)) Y) (dot N P)"
    using cN cP Y N P by (simp add: dot_assoc_sq[where n=n])
  also have "\<dots> = Y" unfolding PN NP using Y by simp
  finally show ?thesis .
qed

lemma bilinear1_hom:
  assumes A: "is_mat n n A" and N: "is_mat n n N" and X0: "is_mat n n X0"
    and NP: "dot N (mat_sub A (eye n)) = eye n" and PN: "dot (mat_sub A (eye n)) N = eye n"
    and B: "B = dot N (mat_add A (eye n))"
    and fp: "X0 = dot (dot (ctrans A) X0) A"
    and Y0: "Y0 = dot (dot (ctrans (mat_sub A (eye n))) X0) (mat_sub A (eye n))"
  shows "mat_add (dot (ctrans B) Y0) (dot Y0 B) = zeros n n"
    and "X0 = dot (dot (ctrans N) Y0) N"
proof -
  let ?I = "eye n"
  define P where "P = mat_sub A ?I"
  define PH where "PH = ctrans P"
  define NH where "NH = ctrans N"
  have P: "is_mat n n P" and cA: "is_mat n n (ctrans A)" using A by (simp_all add: P_def)
  have PHm: "is_mat n n PH" and NHm: "is_mat n n NH" using P N by (simp_all add: PH_def NH_def)
  have PHeq: "PH = mat_sub (ctrans A) ?I"
    unfolding PH_def P_def using A by (simp add: ctrans_sub[where n=n])
  have NP': "dot N P = ?I" and PN': "dot P N = ?I" using NP PN by (simp_all add: P_def)
  have NPH: "dot NH PH = ?I"
    using arg_cong[OF PN', of ctrans] N P by (simp add: ctrans_dot[where n=n] PH_def NH_def)
  have Y0': "Y0 = dot (dot PH X0) P" unfolding Y0 PH_def P_def ..
  have Y0m: "is_mat n n Y0" unfolding Y0' using PHm X0 P by simp
  show "X0 = dot (dot (ctrans N) Y0) N"
  proof -
    have "dot (dot NH Y0) N = dot (dot (dot (dot NH PH) X0) P) N"
      unfolding Y0' using NHm PHm X0 P by (simp add: dot_assoc_sq[where n=n])
    also have "\<dots> = dot (dot (dot NH PH) X0) (dot P N)"
      using NHm PHm X0 P N by (simp add: dot_assoc_sq[where n=n])
    also have "\<dots> = X0" unfolding NPH PN' using X0 by simp
    finally show ?thesis by (simp add: NH_def)
  qed
  have "mat_sub (dot N A) N = ?I"
    using NP A N by (simp add: dot_sub_right[where n=n])
  then have NA: "dot N A = mat_add N ?I"
    using mat_sub_add_iff[of n "dot N A" N ?I] A N by simp
  have Beq: "B = mat_add ?I (smult 2 N)"
  proof -
    have "B = mat_add (mat_add N ?I) N"
      unfolding B using A N NA by (simp add: dot_add_right[where n=n])
    also have "\<dots> = mat_add ?I (smult 2 N)"
      by (rule mat_eqI[of n n]) (use N in \<open>simp_all add: lin_nth[where n=n]\<close>)
    finally show ?thesis .
  qed
  have cB: "ctrans B = mat_add ?I (smult 2 NH)"
    unfolding Beq NH_def using N by (simp add: ctrans_add[where n=n] ctrans_smult[where n=n])
  have t1: "dot NH Y0 = dot X0 P"
  proof -
    have "dot NH Y0 = dot (dot (dot NH PH) X0) P"
      unfolding Y0' using NHm PHm X0 P by (simp add: dot_assoc_sq[where n=n])
    then show ?thesis unfolding NPH using X0 by simp
  qed
  have t2: "dot Y0 N = dot PH X0"
  proof -
    have "dot Y0 N = dot (dot PH X0) (dot P N)"
      unfolding Y0' using PHm X0 P N by (simp add: dot_assoc_sq[where n=n])
    then show ?thesis unfolding PN' using X0 PHm by simp
  qed
  define AX where "AX = dot (ctrans A) X0"
  define XA where "XA = dot X0 A"
  have M: "is_mat n n AX" "is_mat n n XA" using A cA X0 by (simp_all add: AX_def XA_def)
  have fp': "dot AX A = X0" using fp by (simp add: AX_def)
  have e1: "dot X0 P = mat_sub XA X0"
    unfolding P_def XA_def using A X0 by (simp add: dot_sub_right[where n=n])
  have e2: "dot PH X0 = mat_sub AX X0"
    unfolding PHeq AX_def using cA X0 by (simp add: dot_sub_left[where n=n])
  have e3: "Y0 = mat_sub (mat_sub X0 XA) (mat_sub AX X0)"
  proof -
    have "Y0 = dot (mat_sub AX X0) P" unfolding Y0' e2 ..
    also have "\<dots> = mat_sub (mat_sub (dot AX A) XA) (mat_sub AX X0)"
      unfolding P_def XA_def using A X0 M
      by (simp add: dot_sub_left[where n=n] dot_sub_right[where n=n])
    finally show ?thesis unfolding fp' .
  qed
  have "mat_add (dot (ctrans B) Y0) (dot Y0 B)
        = mat_add (mat_add Y0 (smult 2 (dot NH Y0))) (mat_add Y0 (smult 2 (dot Y0 N)))"
    unfolding cB unfolding Beq using N NHm Y0m
    by (simp add: dot_add_left[where n=n] dot_add_right[where n=n]
        dot_smult_left[where n=n] dot_smult_right[where n=n])
  also have "\<dots> = mat_add (mat_add Y0 (smult 2 (mat_sub XA X0)))
                        (mat_add Y0 (smult 2 (mat_sub AX X0)))"
    unfolding t1 t2 e1 e2 ..
  also have "\<dots> = zeros n n"
  proof (rule mat_eqI[of n n])
    fix i j assume ij: "i < n" "j < n"
    have y: "Y0 ! i ! j = X0 ! i ! j - XA ! i ! j - (AX ! i ! j - X0 ! i ! j)"
      using arg_cong[OF e3, of "\<lambda>M. M ! i ! j"] X0 M ij by (simp add: lin_nth[where n=n])
    have "mat_add (mat_add Y0 (smult 2 (mat_sub XA X0)))
                  (mat_add Y0 (smult 2 (mat_sub AX X0))) ! i ! j
          = Y0 ! i ! j + 2 * (XA ! i ! j - X0 ! i ! j)
            + (Y0 ! i ! j + 2 * (AX ! i ! j - X0 ! i ! j))"
      using X0 M Y0m ij by (simp add: lin_nth[where n=n])
    also have "\<dots> = 0" unfolding y by (simp add: algebra_simps)
    finally show "mat_add (mat_add Y0 (smult 2 (mat_sub XA X0)))
                  (mat_add Y0 (smult 2 (mat_sub AX X0))) ! i ! j = zeros n n ! i ! j"
      using ij by simp
  qed (use X0 M Y0m in simp_all)
  finally show "mat_add (dot (ctrans B) Y0) (dot Y0 B) = zeros n n" .
qed

lemma bilinear2_hom:
  assumes A: "is_mat n n A" and W: "is_mat n n W" and X0: "is_mat n n X0"
    and WP: "dot W (mat_add A (eye n)) = eye n" and PW: "dot (mat_add A (eye n)) W = eye n"
    and B: "B = dot (mat_sub A (eye n)) W"
    and fp: "X0 = dot (dot (ctrans A) X0) A"
  shows "mat_add (dot (ctrans B) X0) (dot X0 B) = zeros n n"
proof -
  let ?I = "eye n"
  define P where "P = mat_add A ?I"
  define PH where "PH = ctrans P"
  define WH where "WH = ctrans W"
  have P: "is_mat n n P" and cA: "is_mat n n (ctrans A)" using A by (simp_all add: P_def)
  have PHm: "is_mat n n PH" and WHm: "is_mat n n WH" using P W by (simp_all add: PH_def WH_def)
  have PHeq: "PH = mat_add (ctrans A) ?I"
    unfolding PH_def P_def using A by (simp add: ctrans_add[where n=n])
  have WP': "dot W P = ?I" and PW': "dot P W = ?I" using WP PW by (simp_all add: P_def)
  have WPH: "dot WH PH = ?I"
    using arg_cong[OF PW', of ctrans] W P by (simp add: ctrans_dot[where n=n] PH_def WH_def)
  have Beq: "B = mat_sub ?I (smult 2 W)"
  proof -
    have "mat_sub A ?I = mat_sub P (smult 2 ?I)"
      unfolding P_def by (rule mat_eqI[of n n]) (use A in \<open>simp_all add: lin_nth[where n=n]\<close>)
    then have "B = mat_sub (dot P W) (dot (smult 2 ?I) W)"
      unfolding B using P W by (simp add: dot_sub_left[where n=n])
    also have "\<dots> = mat_sub ?I (smult 2 W)"
      using W PW' by (simp add: dot_smult_left[where n=n])
    finally show ?thesis .
  qed
  have cB: "ctrans B = mat_sub ?I (smult 2 WH)"
    unfolding Beq WH_def using W by (simp add: ctrans_sub[where n=n] ctrans_smult[where n=n])
  define AX where "AX = dot (ctrans A) X0"
  define XA where "XA = dot X0 A"
  have M: "is_mat n n AX" "is_mat n n XA" using A cA X0 by (simp_all add: AX_def XA_def)
  have fp': "dot AX A = X0" using fp by (simp add: AX_def)
  have e1: "dot X0 P = mat_add XA X0"
    unfolding P_def XA_def using A X0 by (simp add: dot_add_right[where n=n])
  have e2: "dot PH X0 = mat_add AX X0"
    unfolding PHeq AX_def using cA X0 by (simp add: dot_add_left[where n=n])
  have E: "dot (dot PH X0) P = mat_add (dot X0 P) (dot PH X0)"
  proof -
    have "dot (dot PH X0) P = dot (mat_add AX X0) P" unfolding e2 ..
    also have "\<dots> = mat_add (dot AX P) (dot X0 P)"
      using M X0 P by (simp add: dot_add_left[where n=n])
    also have "dot AX P = mat_add X0 AX"
      unfolding P_def using M A fp' by (simp add: dot_add_right[where n=n])
    finally have l: "dot (dot PH X0) P = mat_add (mat_add X0 AX) (mat_add XA X0)"
      unfolding e1 .
    have r: "mat_add (dot X0 P) (dot PH X0) = mat_add (mat_add X0 AX) (mat_add XA X0)"
      unfolding e1 e2
      by (rule mat_eqI[of n n]) (use X0 M in \<open>simp_all add: lin_nth[where n=n]\<close>)
    show ?thesis by (simp only: l r)
  qed
  define WX where "WX = dot WH X0"
  define XW where "XW = dot X0 W"
  have M2: "is_mat n n WX" "is_mat n n XW" using W WHm X0 by (simp_all add: WX_def XW_def)
  have K: "X0 = mat_add XW WX"
  proof -
    have "dot (dot WH (dot (dot PH X0) P)) W = dot (dot (dot WH PH) X0) (dot P W)"
      using WHm PHm X0 P W by (simp add: dot_assoc_sq[where n=n])
    also have "\<dots> = X0" unfolding WPH PW' using X0 by simp
    finally have l: "dot (dot WH (dot (dot PH X0) P)) W = X0" .
    have "dot (dot WH (mat_add (dot X0 P) (dot PH X0))) W
          = mat_add (dot (dot WH X0) (dot P W)) (dot (dot (dot WH PH) X0) W)"
      using WHm PHm X0 P W
      by (simp add: dot_add_left[where n=n] dot_add_right[where n=n] dot_assoc_sq[where n=n])
    also have "\<dots> = mat_add WX XW"
      unfolding WPH PW' WX_def XW_def using X0 WHm by simp
    finally have "X0 = mat_add WX XW" using l unfolding E by simp
    then show ?thesis using mat_add_commute[OF M2] by simp
  qed
  have "mat_add (dot (ctrans B) X0) (dot X0 B)
        = mat_add (mat_sub X0 (smult 2 WX)) (mat_sub X0 (smult 2 XW))"
    unfolding cB unfolding Beq WX_def XW_def using W WHm X0
    by (simp add: dot_sub_left[where n=n] dot_sub_right[where n=n]
        dot_smult_left[where n=n] dot_smult_right[where n=n])
  also have "\<dots> = zeros n n"
  proof (rule mat_eqI[of n n])
    fix i j assume ij: "i < n" "j < n"
    have x: "X0 ! i ! j = XW ! i ! j + WX ! i ! j"
      using arg_cong[OF K, of "\<lambda>M. M ! i ! j"] M2 ij by (simp add: lin_nth[where n=n])
    have "mat_add (mat_sub X0 (smult 2 WX)) (mat_sub X0 (smult 2 XW)) ! i ! j
          = X0 ! i ! j - 2 * WX ! i ! j + (X0 ! i ! j - 2 * XW ! i ! j)"
      using X0 M2 ij by (simp add: lin_nth[where n=n])
    also have "\<dots> = 0" unfolding x by (simp add: algebra_simps)
    finally show "mat_add (mat_sub X0 (smult 2 WX)) (mat_sub X0 (smult 2 XW)) ! i ! j
                  = zeros n n ! i ! j" using ij by simp
  qed (use X0 M2 in simp_all)
  finally show ?thesis .
qed

lemma lyap_regular_bilinear1:
  assumes T: "is_mat n n T" and inv: "inv_m (mat_sub (ctrans T) (eye n)) = Inr N"
    and reg: "stein_regular n T"
  shows "lyap_regular n (ctrans (dot N (mat_add (ctrans T) (eye n))))"
  unfolding lyap_regular_def
proof (intro allI impI, elim conjE)
  let ?A = "ctrans T" and ?I = "eye n"
  let ?P = "mat_sub ?A ?I"
  let ?B = "dot N (mat_add ?A ?I)"
  fix Y assume Y: "is_mat n n Y"
    and hom: "mat_add (dot (ctrans ?B) Y) (dot Y (ctrans (ctrans ?B))) = zeros n n"
  have A: "is_mat n n ?A" using T by simp
  have P: "is_mat n n ?P" using A by simp
  have N: "is_mat n n N" by (rule inv_m_is_mat[OF P inv])
  have B: "is_mat n n ?B" using N A by simp
  have NP: "dot N ?P = ?I" by (rule inv_m_left[OF P inv])
  have hom': "mat_add (dot (ctrans ?B) Y) (dot Y ?B) = mat_neg (zeros n n)"
    using hom B by (simp add: mat_neg_zeros)
  define S where "S = smult (1/2) (dot (dot (ctrans (mat_sub ?B ?I)) Y) (mat_sub ?B ?I))"
  have SM: "is_mat n n S" unfolding S_def using B Y by simp
  have "S = mat_add (dot (dot (ctrans ?A) S) ?A) (zeros n n)"
    by (rule bilinear1_algebra[OF A N Y is_mat_zeros NP refl hom' S_def])
  then have "S = dot (dot T S) (ctrans T)"
    using T SM mat_add_zeros[of n "dot (dot T S) (ctrans T)"] by simp
  with reg SM have S0: "S = zeros n n" unfolding stein_regular_def by blast
  have "S = smult 2 (dot (dot (ctrans N) Y) N)"
    by (rule bilinear1_scale[OF A N Y NP refl S_def])
  then have "dot (dot (ctrans N) Y) N = zeros n n"
    using S0 smult_eq_zeros[of 2 n "dot (dot (ctrans N) Y) N"] N Y by simp
  then have "Y = dot (dot (ctrans ?P) (zeros n n)) ?P"
    using sandwich_inverse[OF N P Y NP] by simp
  then show "Y = zeros n n" using dot_zeros_mid[OF is_mat_ctrans[OF P] P] by simp
qed

lemma lyap_regular_bilinear2:
  assumes T: "is_mat n n T" and invW: "inv_m (mat_add (ctrans T) (eye n)) = Inr W"
    and reg: "stein_regular n T"
  shows "lyap_regular n (ctrans (dot (mat_sub (ctrans T) (eye n)) W))"
  unfolding lyap_regular_def
proof (intro allI impI, elim conjE)
  let ?A = "ctrans T" and ?I = "eye n"
  let ?P = "mat_add ?A ?I"
  let ?B = "dot (mat_sub ?A ?I) W"
  fix Y assume Y: "is_mat n n Y"
    and hom: "mat_add (dot (ctrans ?B) Y) (dot Y (ctrans (ctrans ?B))) = zeros n n"
  have A: "is_mat n n ?A" using T by simp
  have P: "is_mat n n ?P" using A by simp
  have W: "is_mat n n W" by (rule inv_m_is_mat[OF P invW])
  have cW: "is_mat n n (ctrans W)" using W by simp
  have B: "is_mat n n ?B" using W A by simp
  have cP: "ctrans ?P = mat_add (ctrans ?A) ?I" using A by (simp add: ctrans_add[where n=n])
  have invV: "inv_m (mat_add (ctrans ?A) ?I) = Inr (ctrans W)"
    using inv_m_ctrans[OF P invW] cP by simp
  have PH: "is_mat n n (mat_add (ctrans ?A) ?I)" using A by simp
  have C0: "smult 2 (dot (dot (ctrans W) (zeros n n)) W) = zeros n n"
    using dot_zeros_mid[OF cW W] by (simp add: smult_zeros)
  have hom': "mat_add (dot (ctrans ?B) Y) (dot Y ?B)
              = mat_neg (smult 2 (dot (dot (ctrans W) (zeros n n)) W))"
    using hom B unfolding C0 by (simp add: mat_neg_zeros)
  have "Y = mat_add (dot (dot (ctrans ?A) Y) ?A) (zeros n n)"
    by (rule bilinear2_algebra[OF A W cW Y is_mat_zeros inv_m_left[OF P invW]
          inv_m_right[OF P invW] inv_m_right[OF PH invV] refl refl hom'])
  then have "Y = dot (dot T Y) (ctrans T)"
    using T Y mat_add_zeros[of n "dot (dot T Y) (ctrans T)"] by simp
  with reg Y show "Y = zeros n n" unfolding stein_regular_def by blast
qed

lemma lyap_regular_bilinear1_iff:
  assumes T: "is_mat n n T" and inv: "inv_m (mat_sub (ctrans T) (eye n)) = Inr N"
  shows "lyap_regular n (ctrans (dot N (mat_add (ctrans T) (eye n)))) \<longleftrightarrow> stein_regular n T"
proof
  assume "stein_regular n T"
  then show "lyap_regular n (ctrans (dot N (mat_add (ctrans T) (eye n))))"
    by (rule lyap_regular_bilinear1[OF T inv])
next
  let ?A = "ctrans T" and ?I = "eye n"
  let ?P = "mat_sub ?A ?I"
  let ?B = "dot N (mat_add ?A ?I)"
  assume reg: "lyap_regular n (ctrans ?B)"
  have A: "is_mat n n ?A" using T by simp
  have P: "is_mat n n ?P" using A by simp
  have N: "is_mat n n N" by (rule inv_m_is_mat[OF P inv])
  have B: "is_mat n n ?B" using N A by simp
  show "stein_regular n T"
    unfolding stein_regular_def
  proof (intro allI impI, elim conjE)
    fix X0 assume X0: "is_mat n n X0" and fp: "X0 = dot (dot T X0) (ctrans T)"
    let ?Y = "dot (dot (ctrans ?P) X0) ?P"
    have Y: "is_mat n n ?Y" using P X0 by simp
    have fpA: "X0 = dot (dot (ctrans ?A) X0) ?A" using fp T by simp
    have hom: "mat_add (dot (ctrans ?B) ?Y) (dot ?Y ?B) = zeros n n"
      and bk: "X0 = dot (dot (ctrans N) ?Y) N"
      using bilinear1_hom[OF A N X0 inv_m_left[OF P inv] inv_m_right[OF P inv] refl fpA refl]
      by blast+
    have "mat_add (dot (ctrans ?B) ?Y) (dot ?Y (ctrans (ctrans ?B))) = zeros n n"
      using hom B by simp
    with reg Y have "?Y = zeros n n" unfolding lyap_regular_def by blast
    then have "X0 = dot (dot (ctrans N) (zeros n n)) N" using bk by simp
    then show "X0 = zeros n n" using dot_zeros_mid[OF is_mat_ctrans[OF N] N] by simp
  qed
qed

lemma lyap_regular_bilinear2_iff:
  assumes T: "is_mat n n T" and invW: "inv_m (mat_add (ctrans T) (eye n)) = Inr W"
  shows "lyap_regular n (ctrans (dot (mat_sub (ctrans T) (eye n)) W)) \<longleftrightarrow> stein_regular n T"
proof
  assume "stein_regular n T"
  then show "lyap_regular n (ctrans (dot (mat_sub (ctrans T) (eye n)) W))"
    by (rule lyap_regular_bilinear2[OF T invW])
next
  let ?A = "ctrans T" and ?I = "eye n"
  let ?P = "mat_add ?A ?I"
  let ?B = "dot (mat_sub ?A ?I) W"
  assume reg: "lyap_regular n (ctrans ?B)"
  have A: "is_mat n n ?A" using T by simp
  have P: "is_mat n n ?P" using A by simp
  have W: "is_mat n n W" by (rule inv_m_is_mat[OF P invW])
  have B: "is_mat n n ?B" using W A by simp
  show "stein_regular n T"
    unfolding stein_regular_def
  proof (intro allI impI, elim conjE)
    fix X0 assume X0: "is_mat n n X0" and fp: "X0 = dot (dot T X0) (ctrans T)"
    have fpA: "X0 = dot (dot (ctrans ?A) X0) ?A" using fp T by simp
    have hom: "mat_add (dot (ctrans ?B) X0) (dot X0 ?B) = zeros n n"
      by (rule bilinear2_hom[OF A W X0 inv_m_left[OF P invW] inv_m_right[OF P invW] refl fpA])
    then have "mat_add (dot (ctrans ?B) X0) (dot X0 (ctrans (ctrans ?B))) = zeros n n"
      using B by simp
    with reg X0 show "X0 = zeros n n" unfolding lyap_regular_def by blast
  qed
qed

lemma bilinear1_solves:
  assumes T: "is_mat n n T" and Q: "is_mat n n Q" and le: "lyap_exact lyap"
    and reg: "stein_regular n T" and res: "bilinear1 lyap T Q = Inr S"
  shows "is_mat n n S \<and> stein_eq T Q S"
proof -
  let ?A = "ctrans T" and ?I = "eye n"
  obtain N X where inv: "inv_m (mat_sub ?A ?I) = Inr N"
    and lx: "lyap (ctrans (dot N (mat_add ?A ?I))) (mat_neg Q) = Some X"
    and S: "S = smult (1 / 2) (dot (dot (ctrans (mat_sub (dot N (mat_add ?A ?I)) ?I)) X)
                (mat_sub (dot N (mat_add ?A ?I)) ?I))"
    using bilinear1_Inr[OF T res] by blast
  let ?B = "dot N (mat_add ?A ?I)"
  have A: "is_mat n n ?A" using T by simp
  have P: "is_mat n n (mat_sub ?A ?I)" using A by simp
  have N: "is_mat n n N" by (rule inv_m_is_mat[OF P inv])
  have B: "is_mat n n ?B" using N A by simp
  have cB: "is_mat n n (ctrans ?B)" using B by simp
  have nQ: "is_mat n n (mat_neg Q)" using Q by simp
  have rg: "lyap_regular n (ctrans ?B)" by (rule lyap_regular_bilinear1[OF T inv reg])
  from le cB nQ lx rg have X: "is_mat n n X"
    and eq: "mat_add (dot (ctrans ?B) X) (dot X (ctrans (ctrans ?B))) = mat_neg Q"
    unfolding lyap_exact_def by blast+
  have eq': "mat_add (dot (ctrans ?B) X) (dot X ?B) = mat_neg Q"
    using eq B by simp
  have SM: "is_mat n n S" unfolding S using B X by simp
  have "S = mat_add (dot (dot (ctrans ?A) S) ?A) Q"
    by (rule bilinear1_algebra[OF A N X Q inv_m_left[OF P inv] refl eq' S])
  then show ?thesis using SM T by (simp add: stein_eq_def)
qed

lemma bilinear2_solves:
  assumes T: "is_mat n n T" and Q: "is_mat n n Q" and le: "lyap_exact lyap"
    and reg: "stein_regular n T" and res: "bilinear2 lyap T Q = Inr S"
  shows "is_mat n n S \<and> stein_eq T Q S"
proof -
  let ?A = "ctrans T" and ?I = "eye n"
  obtain W V where invW: "inv_m (mat_add ?A ?I) = Inr W"
    and invV: "inv_m (mat_add (ctrans ?A) ?I) = Inr V"
    and lx: "lyap (ctrans (dot (mat_sub ?A ?I) W)) (mat_neg (smult 2 (dot (dot V Q) W))) = Some S"
    using bilinear2_Inr[OF T res] by blast
  let ?B = "dot (mat_sub ?A ?I) W"
  let ?C = "smult 2 (dot (dot V Q) W)"
  have A: "is_mat n n ?A" using T by simp
  have P: "is_mat n n (mat_add ?A ?I)" using A by simp
  have PH: "is_mat n n (mat_add (ctrans ?A) ?I)" using A by simp
  have W: "is_mat n n W" by (rule inv_m_is_mat[OF P invW])
  have V: "is_mat n n V" by (rule inv_m_is_mat[OF PH invV])
  have B: "is_mat n n ?B" using W A by simp
  have cB: "is_mat n n (ctrans ?B)" using B by simp
  have nC: "is_mat n n (mat_neg ?C)" using V Q W by simp
  have rg: "lyap_regular n (ctrans ?B)" by (rule lyap_regular_bilinear2[OF T invW reg])
  from le cB nC lx rg have SM: "is_mat n n S"
    and eq: "mat_add (dot (ctrans ?B) S) (dot S (ctrans (ctrans ?B))) = mat_neg ?C"
    unfolding lyap_exact_def by blast+
  have eq': "mat_add (dot (ctrans ?B) S) (dot S ?B) = mat_neg ?C"
    using eq B by simp
  have "S = mat_add (dot (dot (ctrans ?A) S) ?A) Q"
    by (rule bilinear2_algebra[OF A W V SM Q inv_m_left[OF P invW] inv_m_right[OF P invW]
          inv_m_right[OF PH invV] refl refl eq'])
  then show ?thesis using SM T by (simp add: stein_eq_def)
qed


section \<open>A singular discrete equation has an eigenvalue pair\<close>

text \<open>
  If \<open>X = T X T\<^sup>H\<close> has a nonzero solution, then \<open>T\<close> has eigenvalues \<open>l\<close>, \<open>m\<close> with
  \<open>l * conj m = 1\<close>. The solutions form a space that is closed under
  \<open>X \<mapsto> X T\<^sup>H\<close>; some polynomial annihilates \<open>T\<^sup>H\<close> (the \<open>n\<^sup>2 + 1\<close> powers of an
  \<open>n\<close> by \<open>n\<close> matrix are linearly dependent); splitting off its roots one by one
  gives a nonzero solution \<open>Y\<close> with \<open>Y T\<^sup>H = nu Y\<close>. Then \<open>T Y = (1 / nu) Y\<close>, so a
  nonzero column of \<open>Y\<close> is an eigenvector of \<open>T\<close> for \<open>1 / nu\<close>, and the conjugate
  of a nonzero row is one for \<open>conj nu\<close>.
\<close>

lemma dot_zeros_right:
  assumes "is_mat n n Y" shows "dot Y (zeros n n) = zeros n n"
  by (rule mat_eqI[of n n]) (use assms in \<open>simp_all add: sq_nth[where n=n]\<close>)

lemma dot_zeros_left:
  assumes "is_mat n n Y" shows "dot (zeros n n) Y = zeros n n"
  by (rule mat_eqI[of n n]) (use assms in \<open>simp_all add: sq_nth[where n=n]\<close>)

lemma smult_zero:
  assumes "is_mat n n M" shows "smult 0 M = zeros n n"
  by (rule mat_eqI[of n n]) (use assms in \<open>simp_all add: lin_nth[where n=n]\<close>)

lemma mat_add_zeros_left:
  assumes "is_mat n n P" shows "mat_add (zeros n n) P = P"
  by (rule mat_eqI[of n n]) (use assms in \<open>simp_all add: lin_nth[where n=n]\<close>)

lemma hdiv_peval: "peval p z = (z - r) * peval (fst (hdiv r p)) z + snd (hdiv r p)"
proof (induction r p rule: hdiv.induct)
  case (3 r a b p)
  obtain q v where h: "hdiv r (b # p) = (q, v)" by force
  from "3.IH" h have IH: "peval (b # p) z = (z - r) * peval q z + v" by simp
  have "peval (a # b # p) z = a + z * peval (b # p) z" by simp
  also have "\<dots> = (z - r) * (v + z * peval q z) + (a + r * v)"
    unfolding IH by (simp add: algebra_simps)
  finally show ?case
    by (simp only: hdiv.simps h prod.case fst_conv snd_conv peval.simps(2)[of v q])
qed simp_all

lemma hdiv_length: "length (fst (hdiv r p)) = length p - 1"
proof (induction r p rule: hdiv.induct)
  case (3 r a b p)
  obtain q v where h: "hdiv r (b # p) = (q, v)" by force
  from "3.IH" h have "length q = length p" by simp
  then show ?case using h by simp
qed simp_all

lemma hdiv_rem: "snd (hdiv r p) = peval p r"
  using hdiv_peval[of p r r] by simp

lemma is_mat_mpow [simp]: "is_mat n n C \<Longrightarrow> is_mat n n (mpow n C k)"
  by (induction k) simp_all

lemma is_mat_pm [simp]: "is_mat n n C \<Longrightarrow> is_mat n n (pm n p C)"
  by (induction p) simp_all

lemma pm_not_nz: "is_mat n n C \<Longrightarrow> \<not> nz p \<Longrightarrow> pm n p C = zeros n n"
proof (induction p)
  case Nil
  show ?case by simp
next
  case (Cons a p)
  then have a: "a = 0" and p: "pm n p C = zeros n n" by (simp_all add: nz_Cons)
  show ?case
    unfolding pm.simps a p
    using dot_zeros_right[OF Cons.prems(1)] smult_zero[of n "eye n"] mat_add_zeros[of n "zeros n n"]
    by simp
qed

lemma hdiv_pm:
  assumes C: "is_mat n n C"
  shows "pm n p C = mat_add (dot (pm n (fst (hdiv r p)) C) (mat_sub C (smult r (eye n))))
                            (smult (snd (hdiv r p)) (eye n))"
proof (induction r p rule: hdiv.induct)
  case (1 r)
  have D: "is_mat n n (mat_sub C (smult r (eye n)))" using C by simp
  show ?case
    using dot_zeros_left[OF D] smult_zero[of n "eye n"] mat_add_zeros[of n "zeros n n"] by simp
next
  case (2 r a)
  have D: "is_mat n n (mat_sub C (smult r (eye n)))" using C by simp
  show ?case
    using dot_zeros_left[OF D] dot_zeros_right[OF C] mat_add_zeros[of n "smult a (eye n)"]
      mat_add_zeros_left[of n "smult a (eye n)"] by simp
next
  case (3 r a b p)
  let ?I = "eye n"
  let ?D = "mat_sub C (smult r ?I)"
  obtain q v where h: "hdiv r (b # p) = (q, v)" by force
  let ?Pq = "pm n q C"
  have Pq: "is_mat n n ?Pq" and D: "is_mat n n ?D" using C by simp_all
  define G where "G = dot C (dot ?Pq ?D)"
  have G: "is_mat n n G" unfolding G_def using C Pq D by simp
  have IH: "pm n (b # p) C = mat_add (dot ?Pq ?D) (smult v ?I)"
    using "3.IH" h by simp
  have L: "pm n (a # b # p) C = mat_add (smult a ?I) (mat_add G (smult v C))"
  proof -
    have "pm n (a # b # p) C = mat_add (smult a ?I) (dot C (pm n (b # p) C))" by simp
    also have "dot C (pm n (b # p) C) = mat_add (dot C (dot ?Pq ?D)) (dot C (smult v ?I))"
      unfolding IH using C Pq D by (simp add: dot_add_right[where n=n])
    also have "dot C (smult v ?I) = smult v C"
      using C by (simp add: dot_smult_right[where n=n])
    finally show ?thesis unfolding G_def .
  qed
  have R: "dot (pm n (v # q) C) ?D = mat_add (smult v ?D) G"
  proof -
    have "dot (pm n (v # q) C) ?D = dot (mat_add (smult v ?I) (dot C ?Pq)) ?D" by simp
    also have "\<dots> = mat_add (dot (smult v ?I) ?D) (dot (dot C ?Pq) ?D)"
      using C Pq D by (simp add: dot_add_left[where n=n])
    also have "dot (smult v ?I) ?D = smult v ?D"
      using D by (simp add: dot_smult_left[where n=n])
    also have "dot (dot C ?Pq) ?D = G"
      unfolding G_def using C Pq D by (simp add: dot_assoc_sq[where n=n])
    finally show ?thesis .
  qed
  have "mat_add (smult a ?I) (mat_add G (smult v C))
        = mat_add (mat_add (smult v ?D) G) (smult (a + r * v) ?I)"
    by (rule mat_eqI[of n n]) (use C G in \<open>simp_all add: lin_nth[where n=n] algebra_simps\<close>)
  then show ?case using L R h by simp
qed

lemma pm_sum:
  assumes C: "is_mat n n C"
  shows "i < n \<Longrightarrow> j < n \<Longrightarrow>
         pm n p C ! i ! j = (\<Sum>k<length p. p ! k * mpow n C k ! i ! j)"
proof (induction p arbitrary: i j)
  case Nil
  then show ?case by simp
next
  case (Cons a p)
  have P: "is_mat n n (pm n p C)" using C by simp
  have "pm n (a # p) C ! i ! j = a * eye n ! i ! j + (\<Sum>l<n. C ! i ! l * pm n p C ! l ! j)"
    using C P Cons.prems by (simp add: sq_nth[where n=n])
  also have "(\<Sum>l<n. C ! i ! l * pm n p C ! l ! j)
             = (\<Sum>l<n. C ! i ! l * (\<Sum>k<length p. p ! k * mpow n C k ! l ! j))"
    using Cons.IH[OF _ Cons.prems(2)] by (intro sum.cong refl) simp
  also have "\<dots> = (\<Sum>l<n. \<Sum>k<length p. p ! k * (C ! i ! l * mpow n C k ! l ! j))"
    by (simp add: sum_distrib_left mult_ac)
  also have "\<dots> = (\<Sum>k<length p. \<Sum>l<n. p ! k * (C ! i ! l * mpow n C k ! l ! j))"
    by (rule sum.swap)
  also have "\<dots> = (\<Sum>k<length p. p ! k * (\<Sum>l<n. C ! i ! l * mpow n C k ! l ! j))"
    by (simp add: sum_distrib_left)
  also have "\<dots> = (\<Sum>k<length p. p ! k * mpow n C (Suc k) ! i ! j)"
    using C Cons.prems by (simp add: sq_nth[where n=n])
  finally have "pm n (a # p) C ! i ! j
                = a * mpow n C 0 ! i ! j + (\<Sum>k<length p. (a # p) ! Suc k * mpow n C (Suc k) ! i ! j)"
    by simp
  also have "\<dots> = (\<Sum>k<length (a # p). (a # p) ! k * mpow n C k ! i ! j)"
    by (simp add: sum.lessThan_Suc_shift del: sum.lessThan_Suc mpow.simps)
  finally show ?case .
qed

lemma annihilator:
  assumes C: "is_mat n n C"
  shows "\<exists>p. nz p \<and> pm n p C = zeros n n"
proof -
  define N where "N = n * n"
  define G where "G = mk_mat (Suc N) (Suc N)
      (\<lambda>r k. if r < N then mpow n C k ! (r div n) ! (r mod n) else 0)"
  have G: "is_mat (Suc N) (Suc N) G" by (simp add: G_def)
  have "\<exists>e. inv_m G = Inl e"
  proof (cases "inv_m G")
    case (Inr B)
    have B: "is_mat (Suc N) (Suc N) B" by (rule inv_m_is_mat[OF G Inr])
    have "dot G B ! N ! N = (\<Sum>k<Suc N. G ! N ! k * B ! k ! N)"
      by (rule dot_nth[OF G B]) simp_all
    also have "\<dots> = (\<Sum>k<Suc N. 0)"
      by (intro sum.cong refl) (simp add: G_def)
    finally have "dot G B ! N ! N = 0" by simp
    moreover have "dot G B = eye (Suc N)" by (rule inv_m_right[OF G Inr])
    ultimately show ?thesis by simp
  qed blast
  then obtain e where "inv_m G = Inl e" ..
  from inv_m_fail[OF G this] obtain x where lx: "length x = Suc N"
    and nzx: "x \<noteq> replicate (Suc N) 0" and ker: "\<forall>r<Suc N. ip (G ! r) x = 0" by blast
  from nonzero_entry[OF lx nzx] obtain k where "k < Suc N" "x ! k \<noteq> 0" by blast
  then have "nz x" unfolding nz_def using lx nth_mem[of k x] by auto
  moreover have "pm n x C = zeros n n"
  proof (rule mat_eqI[of n n])
    fix i j assume ij: "i < n" "j < n"
    let ?r = "i * n + j"
    have r: "?r < N" unfolding N_def by (rule flat_index[OF ij])
    have dm: "?r div n = i" "?r mod n = j" using ij by simp_all
    have "ip (G ! ?r) x = (\<Sum>k<Suc N. G ! ?r ! k * x ! k)"
      using ip_sum[of "G ! ?r" x] is_mat_row[OF G, of ?r] lx r by simp
    also have "\<dots> = (\<Sum>k<Suc N. x ! k * mpow n C k ! i ! j)"
      using r dm by (intro sum.cong refl) (simp add: G_def)
    finally have "(\<Sum>k<Suc N. x ! k * mpow n C k ! i ! j) = 0" using ker r by simp
    then show "pm n x C ! i ! j = zeros n n ! i ! j"
      using pm_sum[OF C ij, of x] lx ij by simp
  qed (use C in simp_all)
  ultimately show ?thesis by blast
qed

lemma invariant_pm:
  assumes C: "is_mat n n C"
    and Fm: "\<And>Y. F Y \<Longrightarrow> is_mat n n Y"
    and F0: "F (zeros n n)"
    and Fadd: "\<And>Y Z. F Y \<Longrightarrow> F Z \<Longrightarrow> F (mat_add Y Z)"
    and Fsm: "\<And>c Y. F Y \<Longrightarrow> F (smult c Y)"
    and FC: "\<And>Y. F Y \<Longrightarrow> F (dot Y C)"
  shows "F Y \<Longrightarrow> F (dot Y (pm n p C))"
proof (induction p arbitrary: Y)
  case Nil
  then show ?case using dot_zeros_right[OF Fm[OF Nil] ] F0 by simp
next
  case (Cons a p)
  have Y: "is_mat n n Y" by (rule Fm[OF Cons.prems])
  have P: "is_mat n n (pm n p C)" using C by simp
  have "dot Y (pm n (a # p) C) = mat_add (dot Y (smult a (eye n))) (dot Y (dot C (pm n p C)))"
    using Y C P by (simp add: dot_add_right[where n=n])
  also have "dot Y (smult a (eye n)) = smult a Y"
    using Y by (simp add: dot_smult_right[where n=n])
  also have "dot Y (dot C (pm n p C)) = dot (dot Y C) (pm n p C)"
    using Y C P by (simp add: dot_assoc_sq[where n=n])
  finally have "dot Y (pm n (a # p) C) = mat_add (smult a Y) (dot (dot Y C) (pm n p C))" .
  then show ?case
    using Fadd[OF Fsm[OF Cons.prems, of a] Cons.IH[OF FC[OF Cons.prems] ]] by simp
qed

lemma invariant_eigen_aux:
  assumes C: "is_mat n n C"
    and Fm: "\<And>Y. F Y \<Longrightarrow> is_mat n n Y"
    and F0: "F (zeros n n)"
    and Fadd: "\<And>Y Z. F Y \<Longrightarrow> F Z \<Longrightarrow> F (mat_add Y Z)"
    and Fsm: "\<And>c Y. F Y \<Longrightarrow> F (smult c Y)"
    and FC: "\<And>Y. F Y \<Longrightarrow> F (dot Y C)"
  shows "length p = k \<Longrightarrow> nz p \<Longrightarrow> F Y \<Longrightarrow> Y \<noteq> zeros n n \<Longrightarrow>
         dot Y (pm n p C) = zeros n n \<Longrightarrow>
         \<exists>Y' nu. F Y' \<and> Y' \<noteq> zeros n n \<and> dot Y' C = smult nu Y'"
proof (induction k arbitrary: p Y)
  case 0
  then show ?case by (simp add: nz_def)
next
  case (Suc k)
  let ?I = "eye n"
  have Y: "is_mat n n Y" by (rule Fm[OF Suc.prems(3)])
  from Suc.prems(1) obtain a r where p: "p = a # r" by (cases p) auto
  show ?case
  proof (cases "nz r")
    case False
    then have a: "a \<noteq> 0" using Suc.prems(2) p by (simp add: nz_Cons)
    have "pm n p C = smult a ?I"
      unfolding p pm.simps pm_not_nz[OF C False]
      using dot_zeros_right[OF C] mat_add_zeros[of n "smult a ?I"] by simp
    then have "smult a Y = zeros n n"
      using Suc.prems(5) Y by (simp add: dot_smult_right[where n=n])
    from smult_eq_zeros[OF a Y this] Suc.prems(4) show ?thesis by simp
  next
    case True
    from poly_root[OF True, of a] obtain z where z: "peval p z = 0" unfolding p by blast
    define q where "q = fst (hdiv z p)"
    let ?D = "mat_sub C (smult z ?I)"
    have D: "is_mat n n ?D" using C by simp
    have Pq: "is_mat n n (pm n q C)" using C by simp
    have v: "snd (hdiv z p) = 0" using hdiv_rem[of z p] z by simp
    have "pm n p C = mat_add (dot (pm n q C) ?D) (smult 0 ?I)"
      using hdiv_pm[OF C, of p z] v by (simp add: q_def)
    then have pmv: "pm n p C = dot (pm n q C) ?D"
      using smult_zero[of n ?I] mat_add_zeros[of n "dot (pm n q C) ?D"] Pq D by simp
    define Y' where "Y' = dot Y (pm n q C)"
    have FY': "F Y'" unfolding Y'_def
      by (rule invariant_pm[of n C F, OF C Fm F0 Fadd Fsm FC Suc.prems(3)])
    have Y': "is_mat n n Y'" by (rule Fm[OF FY'])
    have "dot Y' ?D = dot Y (dot (pm n q C) ?D)"
      unfolding Y'_def using Y Pq D by (simp add: dot_assoc_sq[where n=n])
    also have "\<dots> = zeros n n" using Suc.prems(5) pmv by simp
    finally have "mat_sub (dot Y' C) (smult z Y') = zeros n n"
      using Y' C by (simp add: dot_sub_right[where n=n] dot_smult_right[where n=n])
    then have "dot Y' C = mat_add (smult z Y') (zeros n n)"
      using mat_sub_add_iff[of n "dot Y' C" "smult z Y'" "zeros n n"] Y' C by simp
    then have eig: "dot Y' C = smult z Y'"
      using mat_add_zeros[of n "smult z Y'"] Y' by simp
    show ?thesis
    proof (cases "Y' = zeros n n")
      case False
      with FY' eig show ?thesis by blast
    next
      case Yz: True
      have lq: "length q = k" using hdiv_length[of z p] Suc.prems(1) by (simp add: q_def)
      have nq: "nz q"
      proof (rule ccontr)
        assume "\<not> nz q"
        then have "peval p w = 0" for w
          using hdiv_peval[of p w z] v peval_not_nz[of q w] by (simp add: q_def)
        then have zero: "peval (a # r) w = 0" for w unfolding p .
        from peval_growth[OF True, of 1 a] obtain R where
          R: "\<And>w. R \<le> cmod w \<Longrightarrow> 1 \<le> cmod (peval (a # r) w)" by blast
        have "R \<le> cmod (of_real \<bar>R\<bar> :: complex)" by simp
        from R[OF this] zero[of "of_real \<bar>R\<bar>"] show False by simp
      qed
      from Suc.IH[OF lq nq Suc.prems(3,4) Yz[unfolded Y'_def] ] show ?thesis .
    qed
  qed
qed

lemma invariant_eigen:
  assumes C: "is_mat n n C"
    and Fm: "\<And>Y. F Y \<Longrightarrow> is_mat n n Y"
    and F0: "F (zeros n n)"
    and Fadd: "\<And>Y Z. F Y \<Longrightarrow> F Z \<Longrightarrow> F (mat_add Y Z)"
    and Fsm: "\<And>c Y. F Y \<Longrightarrow> F (smult c Y)"
    and FC: "\<And>Y. F Y \<Longrightarrow> F (dot Y C)"
    and Y: "F Y" and nY: "Y \<noteq> zeros n n"
  shows "\<exists>Y' nu. F Y' \<and> Y' \<noteq> zeros n n \<and> dot Y' C = smult nu Y'"
proof -
  from annihilator[OF C] obtain p where p: "nz p" "pm n p C = zeros n n" by blast
  have "dot Y (pm n p C) = zeros n n"
    unfolding p(2) by (rule dot_zeros_right[OF Fm[OF Y] ])
  from invariant_eigen_aux[of n C F, OF C Fm F0 Fadd Fsm FC refl p(1) Y nY this]
  show ?thesis .
qed

lemma nonzero_matrix_entry:
  assumes Y: "is_mat n n Y" and nY: "Y \<noteq> zeros n n"
  shows "\<exists>a b. a < n \<and> b < n \<and> Y ! a ! b \<noteq> 0"
proof (rule ccontr)
  assume "\<not> (\<exists>a b. a < n \<and> b < n \<and> Y ! a ! b \<noteq> 0)"
  then have "Y = zeros n n" by (intro mat_eqI[of n n]) (use Y in auto)
  with nY show False by simp
qed

theorem stein_singular_pair:
  assumes T: "is_mat n n T" and X: "is_mat n n X" and nX: "X \<noteq> zeros n n"
    and fp: "X = dot (dot T X) (ctrans T)"
  shows "\<exists>l m. eigenvalue T l \<and> eigenvalue T m \<and> l * cnj m = 1"
proof -
  let ?C = "ctrans T"
  define F where "F = (\<lambda>Y. is_mat n n Y \<and> Y = dot (dot T Y) ?C)"
  have C: "is_mat n n ?C" using T by simp
  have lT: "length T = n" using T by (rule is_mat_length)
  have Fm: "\<And>Y. F Y \<Longrightarrow> is_mat n n Y" by (simp add: F_def)
  have F0: "F (zeros n n)"
    unfolding F_def using dot_zeros_mid[OF T C] by simp
  have Fadd: "F (mat_add Y Z)" if "F Y" "F Z" for Y Z
  proof -
    have Y: "is_mat n n Y" "Y = dot (dot T Y) ?C" and Z: "is_mat n n Z" "Z = dot (dot T Z) ?C"
      using that by (simp_all add: F_def)
    have "dot (dot T (mat_add Y Z)) ?C = mat_add (dot (dot T Y) ?C) (dot (dot T Z) ?C)"
      using T C Y(1) Z(1) by (simp add: dot_add_left[where n=n] dot_add_right[where n=n])
    then show ?thesis unfolding F_def using Y Z by simp
  qed
  have Fsm: "F (smult c Y)" if "F Y" for c Y
  proof -
    have Y: "is_mat n n Y" "Y = dot (dot T Y) ?C" using that by (simp_all add: F_def)
    have "dot (dot T (smult c Y)) ?C = smult c (dot (dot T Y) ?C)"
      using T C Y(1) by (simp add: dot_smult_left[where n=n] dot_smult_right[where n=n])
    then show ?thesis unfolding F_def using Y by simp
  qed
  have FC: "F (dot Y ?C)" if "F Y" for Y
  proof -
    have Y: "is_mat n n Y" "Y = dot (dot T Y) ?C" using that by (simp_all add: F_def)
    have "dot (dot T (dot Y ?C)) ?C = dot (dot (dot T Y) ?C) ?C"
      using T C Y(1) by (simp add: dot_assoc_sq[where n=n])
    then have "dot (dot T (dot Y ?C)) ?C = dot Y ?C" using Y(2) by simp
    then show ?thesis unfolding F_def using Y(1) C by simp
  qed
  have FX: "F X" unfolding F_def using X fp by simp
  from invariant_eigen[of n ?C F, OF C Fm F0 Fadd Fsm FC FX nX]
  obtain Y nu where FY: "F Y" and nY: "Y \<noteq> zeros n n" and eig: "dot Y ?C = smult nu Y"
    by blast
  have Y: "is_mat n n Y" and fpY: "Y = dot (dot T Y) ?C" using FY by (simp_all add: F_def)
  have TY: "is_mat n n (dot T Y)" using T Y by simp
  have "Y = dot T (dot Y ?C)" using fpY T Y C by (simp add: dot_assoc_sq[where n=n])
  then have Ynu: "Y = smult nu (dot T Y)"
    unfolding eig using T Y by (simp add: dot_smult_right[where n=n])
  have nu: "nu \<noteq> 0"
  proof
    assume "nu = 0"
    then have "Y = zeros n n" using Ynu smult_zero[OF TY] by simp
    with nY show False by simp
  qed
  from nonzero_matrix_entry[OF Y nY] obtain a b where
    ab: "a < n" "b < n" "Y ! a ! b \<noteq> 0" by blast
  have col: "(\<Sum>k<n. T ! i ! k * Y ! k ! b) = (1 / nu) * Y ! i ! b" if i: "i < n" for i
  proof -
    have "Y ! i ! b = smult nu (dot T Y) ! i ! b" using Ynu by simp
    also have "\<dots> = nu * (\<Sum>k<n. T ! i ! k * Y ! k ! b)"
      using T Y TY i ab(2) by (simp add: sq_nth[where n=n])
    finally show ?thesis using nu by (simp add: field_simps)
  qed
  have row: "(\<Sum>k<n. T ! j ! k * cnj (Y ! a ! k)) = cnj nu * cnj (Y ! a ! j)" if j: "j < n" for j
  proof -
    have "dot Y ?C ! a ! j = smult nu Y ! a ! j" using eig by simp
    then have "(\<Sum>k<n. Y ! a ! k * ?C ! k ! j) = nu * Y ! a ! j"
      using Y C ab(1) j by (simp add: sq_nth[where n=n])
    then have "(\<Sum>k<n. Y ! a ! k * cnj (T ! j ! k)) = nu * Y ! a ! j"
      using T j by (simp add: sq_nth[where n=n])
    then have "cnj (\<Sum>k<n. Y ! a ! k * cnj (T ! j ! k)) = cnj (nu * Y ! a ! j)" by simp
    then show ?thesis by (simp add: mult.commute)
  qed
  define u where "u = map (\<lambda>i. Y ! i ! b) [0..<n]"
  define w where "w = map (\<lambda>k. cnj (Y ! a ! k)) [0..<n]"
  have lu: "length u = n" and lw: "length w = n" by (simp_all add: u_def w_def)
  have "mv T u = map ((*) (1 / nu)) u"
  proof (rule nth_equalityI)
    show "length (mv T u) = length (map ((*) (1 / nu)) u)" using lT lu by simp
  next
    fix i assume "i < length (mv T u)"
    then have i: "i < n" using lT by simp
    have "mv T u ! i = (\<Sum>k<n. T ! i ! k * u ! k)" by (rule mv_nth[OF T lu i])
    also have "\<dots> = (\<Sum>k<n. T ! i ! k * Y ! k ! b)"
      by (intro sum.cong refl) (simp add: u_def)
    also have "\<dots> = (1 / nu) * Y ! i ! b" by (rule col[OF i])
    finally show "mv T u ! i = map ((*) (1 / nu)) u ! i" using i lu by (simp add: u_def)
  qed
  moreover have "u \<noteq> replicate n 0"
  proof
    assume "u = replicate n 0"
    then have "u ! a = 0" using ab(1) by simp
    then show False using ab by (simp add: u_def)
  qed
  ultimately have e1: "eigenvalue T (1 / nu)"
    unfolding eigenvalue_def lT using lu by blast
  have "mv T w = map ((*) (cnj nu)) w"
  proof (rule nth_equalityI)
    show "length (mv T w) = length (map ((*) (cnj nu)) w)" using lT lw by simp
  next
    fix j assume "j < length (mv T w)"
    then have j: "j < n" using lT by simp
    have "mv T w ! j = (\<Sum>k<n. T ! j ! k * w ! k)" by (rule mv_nth[OF T lw j])
    also have "\<dots> = (\<Sum>k<n. T ! j ! k * cnj (Y ! a ! k))"
      by (intro sum.cong refl) (simp add: w_def)
    also have "\<dots> = cnj nu * cnj (Y ! a ! j)" by (rule row[OF j])
    finally show "mv T w ! j = map ((*) (cnj nu)) w ! j" using j lw by (simp add: w_def)
  qed
  moreover have "w \<noteq> replicate n 0"
  proof
    assume "w = replicate n 0"
    then have "w ! b = 0" using ab(2) by simp
    then show False using ab by (simp add: w_def)
  qed
  ultimately have e2: "eigenvalue T (cnj nu)"
    unfolding eigenvalue_def lT using lw by blast
  have "(1 / nu) * cnj (cnj nu) = 1" using nu by simp
  with e1 e2 show ?thesis by blast
qed

lemma stein_regular_pair_iff:
  assumes T: "is_mat n n T"
  shows "stein_regular n T \<longleftrightarrow> \<not> (\<exists>l m. eigenvalue T l \<and> eigenvalue T m \<and> l * cnj m = 1)"
proof
  assume reg: "stein_regular n T"
  show "\<not> (\<exists>l m. eigenvalue T l \<and> eigenvalue T m \<and> l * cnj m = 1)"
  proof
    assume "\<exists>l m. eigenvalue T l \<and> eigenvalue T m \<and> l * cnj m = 1"
    then obtain l m where "eigenvalue T l" "eigenvalue T m" "l * cnj m = 1" by blast
    from eig_pair_fixed[OF T this] reg show False unfolding stein_regular_def by blast
  qed
next
  assume no: "\<not> (\<exists>l m. eigenvalue T l \<and> eigenvalue T m \<and> l * cnj m = 1)"
  show "stein_regular n T"
    unfolding stein_regular_def
  proof (intro allI impI, elim conjE)
    fix X assume X: "is_mat n n X" and fp: "X = dot (dot T X) (ctrans T)"
    show "X = zeros n n"
    proof (rule ccontr)
      assume "X \<noteq> zeros n n"
      from stein_singular_pair[OF T X this fp] no show False by blast
    qed
  qed
qed

lemma stable_regular:
  assumes T: "is_mat n n T" and st: "stable T"
  shows "stein_regular n T"
  unfolding stein_regular_pair_iff[OF T]
proof
  assume "\<exists>l m. eigenvalue T l \<and> eigenvalue T m \<and> l * cnj m = 1"
  then obtain l m where l: "eigenvalue T l" and m: "eigenvalue T m" and lm: "l * cnj m = 1"
    by blast
  have cl: "cmod l < 1" and cm: "cmod m < 1" using st l m unfolding stable_def by blast+
  have "cmod l * cmod m = cmod (l * cnj m)" by (simp add: norm_mult)
  also have "\<dots> = 1" unfolding lm by simp
  finally have one: "cmod l * cmod m = 1" .
  have "cmod l * cmod m \<le> cmod l * 1"
    by (rule mult_left_mono) (use cm in simp_all)
  with cl one show False by simp
qed

section \<open>The errors of the bilinear variants\<close>

lemma inv_m_cases: "inv_m A = Inl Singular_Matrix \<or> (\<exists>N. inv_m A = Inr N)"
  by (cases "inv_m A") (auto dest: inv_m_Inl)

lemma bilinear1_singular_iff:
  assumes T: "is_mat n n T"
  shows "bilinear1 lyap T Q = Inl Singular_Matrix \<longleftrightarrow>
         inv_m (mat_sub (ctrans T) (eye n)) = Inl Singular_Matrix"
  unfolding bilinear1_def Let_def length_ctrans[OF T]
  by (auto split: sum.splits option.splits dest: inv_m_Inl)

lemma bilinear2_singular_iff:
  assumes T: "is_mat n n T"
  shows "bilinear2 lyap T Q = Inl Singular_Matrix \<longleftrightarrow>
         inv_m (mat_add (ctrans T) (eye n)) = Inl Singular_Matrix \<or>
         inv_m (mat_add (ctrans (ctrans T)) (eye n)) = Inl Singular_Matrix"
  unfolding bilinear2_def Let_def length_ctrans[OF T]
  by (auto split: sum.splits option.splits if_splits dest: inv_m_Inl)

lemma bilinear1_singular_eigen:
  assumes T: "is_mat n n T"
  shows "bilinear1 lyap T Q = Inl Singular_Matrix \<longleftrightarrow> eigenvalue T 1"
  using bilinear1_singular_iff[OF T] eigenvalue_one_iff[OF T] by simp

lemma bilinear2_singular_eigen:
  assumes T: "is_mat n n T"
  shows "bilinear2 lyap T Q = Inl Singular_Matrix \<longleftrightarrow> eigenvalue T (- 1)"
  using bilinear2_singular_iff[OF T] eigenvalue_minus_one_iff[OF T] by blast

lemma bilinear1_returns:
  assumes T: "is_mat n n T" and Q: "is_mat n n Q" and n: "0 < n"
    and lt: "lyap_total lyap" and ne: "\<not> eigenvalue T 1"
  shows "\<exists>S. bilinear1 lyap T Q = Inr S"
proof -
  let ?A = "ctrans T" and ?I = "eye n"
  from ne eigenvalue_one_iff[OF T] inv_m_cases[of "mat_sub ?A ?I"]
  obtain N where inv: "inv_m (mat_sub ?A ?I) = Inr N" by blast
  let ?B = "dot N (mat_add ?A ?I)"
  have A: "is_mat n n ?A" using T by simp
  have P: "is_mat n n (mat_sub ?A ?I)" using A by simp
  have N: "is_mat n n N" by (rule inv_m_is_mat[OF P inv])
  have cB: "is_mat n n (ctrans ?B)" using N A by simp
  have nQ: "is_mat n n (mat_neg Q)" using Q by simp
  from lt n cB nQ obtain X where "lyap (ctrans ?B) (mat_neg Q) = Some X"
    unfolding lyap_total_def by blast
  then show ?thesis
    unfolding bilinear1_def Let_def length_ctrans[OF T] using inv by simp
qed

lemma bilinear2_returns:
  assumes T: "is_mat n n T" and Q: "is_mat n n Q" and n: "0 < n"
    and lt: "lyap_total lyap" and ne: "\<not> eigenvalue T (- 1)"
  shows "\<exists>S. bilinear2 lyap T Q = Inr S"
proof -
  let ?A = "ctrans T" and ?I = "eye n"
  from ne eigenvalue_minus_one_iff(1)[OF T] inv_m_cases[of "mat_add ?A ?I"]
  obtain W where invW: "inv_m (mat_add ?A ?I) = Inr W" by blast
  from ne eigenvalue_minus_one_iff(2)[OF T] inv_m_cases[of "mat_add (ctrans ?A) ?I"]
  obtain V where invV: "inv_m (mat_add (ctrans ?A) ?I) = Inr V" by blast
  let ?B = "dot (mat_sub ?A ?I) W"
  let ?C = "smult 2 (dot (dot V Q) W)"
  have A: "is_mat n n ?A" using T by simp
  have P: "is_mat n n (mat_add ?A ?I)" using A by simp
  have PH: "is_mat n n (mat_add (ctrans ?A) ?I)" using A by simp
  have W: "is_mat n n W" by (rule inv_m_is_mat[OF P invW])
  have V: "is_mat n n V" by (rule inv_m_is_mat[OF PH invV])
  have cB: "is_mat n n (ctrans ?B)" using W A by simp
  have nC: "is_mat n n (mat_neg ?C)" using V Q W by simp
  from lt n cB nC obtain X where "lyap (ctrans ?B) (mat_neg ?C) = Some X"
    unfolding lyap_total_def by blast
  then show ?thesis
    unfolding bilinear2_def Let_def length_ctrans[OF T] using invW invV Q by simp
qed

lemma bilinear1_fails_iff:
  assumes T: "is_mat n n T" and Q: "is_mat n n Q" and n: "0 < n" and lt: "lyap_total lyap"
  shows "isl (bilinear1 lyap T Q) \<longleftrightarrow> eigenvalue T 1"
proof
  assume f: "isl (bilinear1 lyap T Q)"
  show "eigenvalue T 1"
  proof (rule ccontr)
    assume "\<not> eigenvalue T 1"
    from bilinear1_returns[OF T Q n lt this] f show False by auto
  qed
next
  assume "eigenvalue T 1"
  then have "bilinear1 lyap T Q = Inl Singular_Matrix"
    using bilinear1_singular_eigen[OF T] by simp
  then show "isl (bilinear1 lyap T Q)" by simp
qed

lemma bilinear2_fails_iff:
  assumes T: "is_mat n n T" and Q: "is_mat n n Q" and n: "0 < n" and lt: "lyap_total lyap"
  shows "isl (bilinear2 lyap T Q) \<longleftrightarrow> eigenvalue T (- 1)"
proof
  assume f: "isl (bilinear2 lyap T Q)"
  show "eigenvalue T (- 1)"
  proof (rule ccontr)
    assume "\<not> eigenvalue T (- 1)"
    from bilinear2_returns[OF T Q n lt this] f show False by auto
  qed
next
  assume "eigenvalue T (- 1)"
  then have "bilinear2 lyap T Q = Inl Singular_Matrix"
    using bilinear2_singular_eigen[OF T] by simp
  then show "isl (bilinear2 lyap T Q)" by simp
qed




lemma bilinear1_isl:
  assumes "is_mat n n T" "is_mat n n Q" "is_mat n n Q'" "0 < n" "lyap_total lyap"
  shows "isl (bilinear1 lyap T Q) = isl (bilinear1 lyap T Q')"
  using bilinear1_fails_iff[OF assms(1,2,4,5)] bilinear1_fails_iff[OF assms(1,3,4,5)] by simp

lemma bilinear2_isl:
  assumes "is_mat n n T" "is_mat n n Q" "is_mat n n Q'" "0 < n" "lyap_total lyap"
  shows "isl (bilinear2 lyap T Q) = isl (bilinear2 lyap T Q')"
  using bilinear2_fails_iff[OF assms(1,2,4,5)] bilinear2_fails_iff[OF assms(1,3,4,5)] by simp

lemma bilinear1_pipeline:
  assumes T: "is_mat n n T" and N: "is_mat n n N"
    and NP: "dot N (mat_sub (ctrans T) (eye n)) = eye n"
  shows "bilinear1 lyap T Q =
         (case lyap (ctrans (dot N (mat_add (ctrans T) (eye n)))) (mat_neg Q) of
            None \<Rightarrow> Inl Lyapunov_Error
          | Some X \<Rightarrow> Inr (smult (1 / 2)
              (dot (dot (ctrans (mat_sub (dot N (mat_add (ctrans T) (eye n))) (eye n))) X)
                   (mat_sub (dot N (mat_add (ctrans T) (eye n))) (eye n)))))"
proof -
  have P: "is_mat n n (mat_sub (ctrans T) (eye n))" using T by simp
  have "inv_m (mat_sub (ctrans T) (eye n)) = Inr N" by (rule inv_m_succeeds[OF P N NP])
  then show ?thesis unfolding bilinear1_def Let_def length_ctrans[OF T] by simp
qed

lemma bilinear2_pipeline:
  assumes T: "is_mat n n T" and Q: "is_mat n n Q" and W: "is_mat n n W"
    and WP: "dot W (mat_add (ctrans T) (eye n)) = eye n"
    and V: "is_mat n n V"
    and VP: "dot V (mat_add (ctrans (ctrans T)) (eye n)) = eye n"
  shows "bilinear2 lyap T Q =
         (case lyap (ctrans (dot (mat_sub (ctrans T) (eye n)) W))
                    (mat_neg (smult 2 (dot (dot V Q) W))) of
            None \<Rightarrow> Inl Lyapunov_Error
          | Some S \<Rightarrow> Inr S)"
proof -
  have P: "is_mat n n (mat_add (ctrans T) (eye n))" using T by simp
  have PH: "is_mat n n (mat_add (ctrans (ctrans T)) (eye n))" using T by simp
  have "inv_m (mat_add (ctrans T) (eye n)) = Inr W" by (rule inv_m_succeeds[OF P W WP])
  moreover have "inv_m (mat_add (ctrans (ctrans T)) (eye n)) = Inr V"
    by (rule inv_m_succeeds[OF PH V VP])
  ultimately show ?thesis unfolding bilinear2_def Let_def length_ctrans[OF T] using Q by simp
qed

lemma inv_m_none:
  assumes A: "is_mat n n A" and no: "\<not> (\<exists>N. is_mat n n N \<and> dot N A = eye n)"
  shows "inv_m A = Inl Singular_Matrix"
proof (cases "inv_m A")
  case (Inl e)
  then show ?thesis using inv_m_Inl by blast
next
  case (Inr N)
  from inv_m_is_mat[OF A Inr] inv_m_left[OF A Inr] no show ?thesis by blast
qed
section \<open>Evaluation on concrete arrays\<close>

text \<open>
  Unrolled forms of the array primitives at the dimensions 1, 2 and 4, so that the
  functions of the notebook can be evaluated by rewriting on concrete inputs.
\<close>


lemma upt_2: "[0..<2] = [0, 1]" by (simp add: upt_rec)
lemma upt_4: "[0..<4] = [0, 1, 2, 3]" by (simp add: upt_rec)

lemma sum_lt_2: "(\<Sum>k<(2::nat). f k) = (f 0 + f 1 :: complex)"
  by (simp add: numeral_2_eq_2)
lemma sum_lt_4: "(\<Sum>k<(4::nat). f k) = (f 0 + f 1 + f 2 + f 3 :: complex)"
  by (simp add: numeral_eq_Suc)

lemma solve_sys_numeral:
  "solve_sys (numeral k) eqs =
    (case List.extract pivot_ok eqs of
       None \<Rightarrow> None
     | Some (pre, piv, post) \<Rightarrow>
         (case solve_sys (pred_numeral k) (map (elim_eq piv) (pre @ post)) of
            None \<Rightarrow> None
          | Some xs \<Rightarrow> Some (back_subst piv xs # xs)))"
  by (simp add: numeral_eq_Suc)

lemma length_1: "length [a] = 1" by simp
lemma length_2: "length [a, b] = 2" by simp
lemma length_4: "length [a, b, c, d] = 4" by simp

lemma mk_mat_1_1: "mk_mat (Suc 0) (Suc 0) f = [ [f 0 0] ]"
  by (simp add: mk_mat_def)
lemma mk_mat_2_2: "mk_mat 2 2 f = [ [f 0 0, f 0 1], [f 1 0, f 1 1] ]"
  by (simp add: mk_mat_def upt_2)
lemma mk_mat_4_1: "mk_mat 4 (Suc 0) f = [ [f 0 0], [f 1 0], [f 2 0], [f 3 0] ]"
  by (simp add: mk_mat_def upt_4)
lemma mk_mat_4_4: "mk_mat 4 4 f =
   [ [f 0 0, f 0 1, f 0 2, f 0 3], [f 1 0, f 1 1, f 1 2, f 1 3],
    [f 2 0, f 2 1, f 2 2, f 2 3], [f 3 0, f 3 1, f 3 2, f 3 3] ]"
  by (simp add: mk_mat_def upt_4)

lemma kron_2_2:
  "kron [ [a, b], [c, d] ] [ [e, f], [g, h] ] =
   [ [a * e, a * f, b * e, b * f], [a * g, a * h, b * g, b * h],
    [c * e, c * f, d * e, d * f], [c * g, c * h, d * g, d * h] ]"
  apply (simp only: kron_def ncols_def list.case length_2)
  apply (simp add: mk_mat_4_4)
  done

lemma eye_4: "eye 4 = [ [1,0,0,0],[0,1,0,0],[0,0,1,0],[0,0,0,1] ]"
  by (simp add: eye_def mk_mat_4_4)
lemma dot_4_1:
  "dot [ [a0,a1,a2,a3],[b0,b1,b2,b3],[c0,c1,c2,c3],[d0,d1,d2,d3] ] [ [x0],[x1],[x2],[x3] ] =
   [ [a0*x0 + a1*x1 + a2*x2 + a3*x3], [b0*x0 + b1*x1 + b2*x2 + b3*x3],
    [c0*x0 + c1*x1 + c2*x2 + c3*x3], [d0*x0 + d1*x1 + d2*x2 + d3*x3] ]"
  apply (simp only: dot_def ncols_def list.case length_4 length_1)
  apply (simp add: mk_mat_4_1 sum_lt_4)
  done

lemma reshape_2_2_to_4_1:
  "reshape (size_m [ [a, b], [c, d] ]) (Suc 0) [ [a, b], [c, d] ] = [ [a], [b], [c], [d] ]"
  by (simp add: reshape_def size_m_def mk_mat_def)

lemma size_m_2_2: "size_m [ [a, b], [c, d] ] = 4"
  by (simp add: size_m_def)

lemma reshape_4_to_4_1: "reshape 4 (Suc 0) [ [a, b], [c, d] ] = [ [a], [b], [c], [d] ]"
  using reshape_2_2_to_4_1[of a b c d] by (simp add: size_m_2_2)

lemma reshape_4_1_to_2_2:
  "reshape 2 2 [ [a], [b], [c], [d] ] = [ [a, b], [c, d] ]"
  by (simp add: reshape_def mk_mat_2_2)

lemma eval_op_2:
  "mat_sub (eye 4) (kron [ [1/2, 0],[\<i>, 0] ] (conj_m [ [1/2, 0],[\<i>, 0] ]))
   = [ [3/4, 0, 0, 0], [\<i>/2, 1, 0, 0], [- (\<i>/2), 0, 1, 0], [-1, 0, 0, 1] ]"
  by (simp add: eye_4 conj_m_def kron_2_2 mat_sub_def)

lemma inv_m_4:
  "inv_m [r0, r1, r2, r3] =
     (case those [solve_sys 4 (zip [r0, r1, r2, r3] [1, 0, 0, 0]),
                  solve_sys 4 (zip [r0, r1, r2, r3] [0, 1, 0, 0]),
                  solve_sys 4 (zip [r0, r1, r2, r3] [0, 0, 1, 0]),
                  solve_sys 4 (zip [r0, r1, r2, r3] [0, 0, 0, 1])] of
        None \<Rightarrow> Inl Singular_Matrix
      | Some cols \<Rightarrow> Inr (mk_mat 4 4 (\<lambda>i j. cols ! j ! i)))"
  apply (simp only: inv_m_def length_4 Let_def)
  apply (simp add: upt_4 unit_vec_def)
  done

lemmas solve_simps = solve_sys_numeral List.extract_Cons_code List.extract_Nil_code

lemma eval_inv_2: "inv_m [ [3/4, 0, 0, 0], [\<i>/2, 1, 0, 0], [- (\<i>/2), 0, 1, 0], [-1, 0, 0, 1] ]
  = Inr [ [4/3, 0, 0, 0], [- (2 * \<i> / 3), 1, 0, 0], [2 * \<i> / 3, 0, 1, 0], [4/3, 0, 0, 1] ]"
  by (simp add: inv_m_4 solve_simps mk_mat_4_4)

lemma vec_colmajor_2_2: "vec_colmajor [ [a, b], [c, d] ] = [ [a], [c], [b], [d] ]"
  apply (simp only: vec_colmajor_def ncols_def list.case length_2 Let_def)
  apply (simp add: mk_mat_4_1)
  done

lemma reshape_colmajor_2_2: "reshape_colmajor 2 2 [ [a], [b], [c], [d] ] = [ [a, c], [b, d] ]"
  by (simp add: reshape_colmajor_def mk_mat_2_2)

lemma eval_direct_2:
  "direct_inverse [ [1/2, 0],[\<i>, 0] ] [ [1, 0],[0, 1] ]
   = Inr [ [4/3, - (2 * \<i> / 3)], [2 * \<i> / 3, 7/3] ]"
  unfolding direct_inverse_def Let_def length_2
  by (simp add: eval_op_2 eval_inv_2 size_m_2_2 reshape_4_to_4_1 dot_4_1 reshape_4_1_to_2_2)

lemma eval_colmajor_2:
  "direct_colmajor [ [1/2, 0],[\<i>, 0] ] [ [1, 0],[0, 1] ]
   = Inr [ [4/3, 2 * \<i> / 3], [- (2 * \<i> / 3), 7/3] ]"
  unfolding direct_colmajor_def Let_def length_2
  by (simp add: eval_op_2 eval_inv_2 vec_colmajor_2_2 dot_4_1 reshape_colmajor_2_2)

lemma is_mat_1_1 [simp]: "is_mat (Suc 0) (Suc 0) [ [x] ]"
  by (simp add: is_mat_def)

lemma is_mat_2_2 [simp]: "is_mat 2 2 [ [a, b], [c, d] ]"
  by (simp add: is_mat_def)

lemmas eval_1 = direct_inverse_def bilinear1_def bilinear2_def solve_lyapunov_def lyap_op_def
  inv_m_def eye_def kron_def conj_m_def mat_sub_def mat_add_def mat_neg_def smult_def ctrans_def
  transpose_m_def dot_def reshape_def size_m_def ncols_def unit_vec_def mk_mat_1_1
  List.extract_Cons_code List.extract_Nil_code Let_def

lemma eval_direct_half: "direct_inverse [ [1 / 2] ] [ [1] ] = Inr [ [4 / 3] ]"
  by (simp add: eval_1)

lemma eval_bilinear1_half: "bilinear1 solve_lyapunov [ [1 / 2] ] [ [1] ] = Inr [ [4 / 3] ]"
  by (simp add: eval_1)

lemma eval_bilinear2_half: "bilinear2 solve_lyapunov [ [1 / 2] ] [ [1] ] = Inr [ [4 / 3] ]"
  by (simp add: eval_1)

lemma eigenvalue_1_1: "eigenvalue [ [t] ] lam \<longleftrightarrow> lam = t"
proof
  assume "eigenvalue [ [t] ] lam"
  then obtain v where v: "length v = 1" "v \<noteq> [0]" "mv [ [t] ] v = map ((*) lam) v"
    by (auto simp: eigenvalue_def)
  then obtain x where x: "v = [x]" by (cases v) auto
  with v show "lam = t" by (simp add: mv_def)
next
  assume "lam = t"
  then show "eigenvalue [ [t] ] lam"
    unfolding eigenvalue_def by (intro exI[of _ "[1]"]) (simp add: mv_def)
qed

lemma stable_half: "stable [ [1 / 2] ]"
  unfolding stable_def
proof (intro allI impI)
  fix lam :: complex assume "eigenvalue [ [1 / 2] ] lam"
  then have l: "lam = 1 / 2" by (simp only: eigenvalue_1_1)
  show "cmod lam < 1" unfolding l by (simp add: norm_divide)
qed


lemma stable_2: "stable [ [1 / 2, 0], [\<i>, 0] ]"
  unfolding stable_def
proof (intro allI impI)
  fix lam :: complex assume "eigenvalue [ [1 / 2, 0], [\<i>, 0] ] lam"
  then obtain v where v: "length v = Suc (Suc 0)" "v \<noteq> [0, 0]"
    "mv [ [1 / 2, 0], [\<i>, 0] ] v = map ((*) lam) v"
    by (auto simp: eigenvalue_def)
  from v(1) obtain x y where xy: "v = [x, y]"
    by (cases v; cases "tl v") auto
  from v(3) have 1: "x / 2 = lam * x" and 2: "\<i> * x = lam * y"
    by (simp_all add: xy mv_def)
  show "cmod lam < 1"
  proof (cases "x = 0")
    case True
    then have "y \<noteq> 0" using v(2) xy by simp
    then have "lam = 0" using 2 True by simp
    then show ?thesis by simp
  next
    case False
    then have l: "lam = 1 / 2" using 1 by (simp add: field_simps)
    show ?thesis unfolding l by (simp add: norm_divide)
  qed
qed












lemma eval_direct_nonhermitian:
  "direct_inverse [ [1 / 2] ] [ [\<i>] ] = Inr [ [4 * \<i> / 3] ]"
  by (simp add: eval_1)

lemma eval_bilinear2_nonhermitian:
  "bilinear2 solve_lyapunov [ [1 / 2] ] [ [\<i>] ] = Inr [ [4 * \<i> / 3] ]"
  by (simp add: eval_1)

lemma not_hermitian_i: "\<not> hermitian [ [\<i>] ]"
  by (simp add: hermitian_def ctrans_def transpose_m_def conj_m_def ncols_def mk_mat_1_1
      complex_eq_iff)

lemma hermitian_one: "hermitian [ [1] ]"
  by (simp add: hermitian_def ctrans_def transpose_m_def conj_m_def ncols_def mk_mat_1_1)
section \<open>The claims of the specification\<close>

subsection \<open>Equation satisfaction\<close>

text \<open>
  Claim C1. For every stable transition matrix \<open>T\<close> (every eigenvalue has modulus below
  \<open>1\<close>) of dimension \<open>n \<ge> 1\<close> and every \<open>Q\<close> of the same dimension (Hermitian positive
  semi-definite or not), each of \<open>direct_inverse\<close>, \<open>bilinear1\<close> and \<open>bilinear2\<close> returns
  a matrix, and the matrix satisfies the discrete Lyapunov equation
  \<open>Sigma = T Sigma T\<^sup>H + Q\<close>; it is the only solution. In exact arithmetic the equation
  holds exactly, hence within every tolerance. The bilinear variants are stated for
  every continuous solver that meets the contract \<open>lyap_exact\<close>, \<open>lyap_total\<close>.
\<close>

theorem equation_satisfaction:
  assumes "0 < n" and "is_mat n n T" and "is_mat n n Q" and "stable T"
    and "lyap_exact lyap" and "lyap_total lyap"
  shows "\<exists>S. is_mat n n S \<and> stein_eq T Q S \<and>
             direct_inverse T Q = Inr S \<and> bilinear1 lyap T Q = Inr S \<and>
             bilinear2 lyap T Q = Inr S \<and>
             (\<forall>S'. is_mat n n S' \<and> stein_eq T Q S' \<longrightarrow> S' = S)"
proof -
  note T = assms(2) and Q = assms(3)
  have reg: "stein_regular n T" by (rule stable_regular[OF T assms(4)])
  from regular_direct_returns[OF T Q reg] obtain S where d: "direct_inverse T Q = Inr S" ..
  have S: "is_mat n n S" "stein_eq T Q S" using direct_inverse_solves[OF T Q d] by simp_all
  have u: "S' = S" if "is_mat n n S'" "stein_eq T Q S'" for S'
    by (rule direct_inverse_unique[OF T Q d that])
  have n1: "\<not> eigenvalue T 1" and n2: "\<not> eigenvalue T (- 1)"
    using assms(4) unfolding stable_def by fastforce+
  from bilinear1_returns[OF T Q assms(1,6) n1] obtain S1 where b1: "bilinear1 lyap T Q = Inr S1" ..
  from bilinear2_returns[OF T Q assms(1,6) n2] obtain S2 where b2: "bilinear2 lyap T Q = Inr S2" ..
  have "S1 = S" using bilinear1_solves[OF T Q assms(5) reg b1] u by blast
  moreover have "S2 = S" using bilinear2_solves[OF T Q assms(5) reg b2] u by blast
  ultimately show ?thesis using S d b1 b2 u by blast
qed

theorem equation_satisfaction_witness:
  "0 < (2::nat) \<and> is_mat 2 2 [ [1 / 2, 0], [\<i>, 0] ] \<and> is_mat 2 2 [ [1, 0], [0, 1] ] \<and>
   stable [ [1 / 2, 0], [\<i>, 0] ] \<and>
   lyap_exact solve_lyapunov \<and> lyap_total solve_lyapunov \<and>
   is_mat 2 2 [ [4 / 3, - (2 * \<i> / 3)], [2 * \<i> / 3, 7 / 3] ] \<and>
   stein_eq [ [1 / 2, 0], [\<i>, 0] ] [ [1, 0], [0, 1] ]
     [ [4 / 3, - (2 * \<i> / 3)], [2 * \<i> / 3, 7 / 3] ] \<and>
   direct_inverse [ [1 / 2, 0], [\<i>, 0] ] [ [1, 0], [0, 1] ]
     = Inr [ [4 / 3, - (2 * \<i> / 3)], [2 * \<i> / 3, 7 / 3] ] \<and>
   bilinear1 solve_lyapunov [ [1 / 2, 0], [\<i>, 0] ] [ [1, 0], [0, 1] ]
     = Inr [ [4 / 3, - (2 * \<i> / 3)], [2 * \<i> / 3, 7 / 3] ] \<and>
   bilinear2 solve_lyapunov [ [1 / 2, 0], [\<i>, 0] ] [ [1, 0], [0, 1] ]
     = Inr [ [4 / 3, - (2 * \<i> / 3)], [2 * \<i> / 3, 7 / 3] ]"
proof -
  have n: "0 < (2::nat)" by simp
  have T: "is_mat 2 2 [ [1 / 2, 0], [\<i>, 0] ]" and Q: "is_mat 2 2 [ [1, 0], [0, 1] ]" by simp_all
  from equation_satisfaction[OF n T Q stable_2 solve_lyapunov_exact solve_lyapunov_total]
  obtain S where S: "is_mat 2 2 S" "stein_eq [ [1 / 2, 0], [\<i>, 0] ] [ [1, 0], [0, 1] ] S"
    and d: "direct_inverse [ [1 / 2, 0], [\<i>, 0] ] [ [1, 0], [0, 1] ] = Inr S"
    and b1: "bilinear1 solve_lyapunov [ [1 / 2, 0], [\<i>, 0] ] [ [1, 0], [0, 1] ] = Inr S"
    and b2: "bilinear2 solve_lyapunov [ [1 / 2, 0], [\<i>, 0] ] [ [1, 0], [0, 1] ] = Inr S"
    by blast
  from d have e: "S = [ [4 / 3, - (2 * \<i> / 3)], [2 * \<i> / 3, 7 / 3] ]"
    by (simp add: eval_direct_2)
  show ?thesis
    using n T Q stable_2 solve_lyapunov_exact solve_lyapunov_total S d b1 b2
    unfolding e by blast
qed

subsection \<open>Cross-method agreement\<close>

text \<open>
  Claim C2. Whenever \<open>direct_inverse\<close>, \<open>bilinear1\<close> and \<open>bilinear2\<close> all succeed on
  \<open>T\<close> and \<open>Q\<close>, the three methods return the same \<open>Sigma\<close> (exactly, hence within
  \<open>1e-6\<close>): the direct method succeeds only where the equation has one solution, and
  there the continuous equations of the bilinear variants are regular, so that a solver
  that meets \<open>lyap_exact\<close> has solved them.
\<close>

theorem cross_method_agreement:
  assumes "is_mat n n T" and "is_mat n n Q" and "lyap_exact lyap"
    and "direct_inverse T Q = Inr S1"
    and "bilinear1 lyap T Q = Inr S2"
    and "bilinear2 lyap T Q = Inr S3"
  shows "S2 = S1 \<and> S3 = S1"
proof -
  have reg: "stein_regular n T" by (rule direct_returns_regular[OF assms(1,2,4)])
  have "is_mat n n S2 \<and> stein_eq T Q S2" by (rule bilinear1_solves[OF assms(1,2,3) reg assms(5)])
  then have 2: "S2 = S1" using direct_inverse_unique[OF assms(1,2,4)] by blast
  have "is_mat n n S3 \<and> stein_eq T Q S3" by (rule bilinear2_solves[OF assms(1,2,3) reg assms(6)])
  then have "S3 = S1" using direct_inverse_unique[OF assms(1,2,4)] by blast
  with 2 show ?thesis by simp
qed

theorem cross_method_agreement_witness:
  "is_mat 1 1 [ [1 / 2] ] \<and> is_mat 1 1 [ [1] ] \<and> lyap_exact solve_lyapunov \<and>
   direct_inverse [ [1 / 2] ] [ [1] ] = Inr [ [4 / 3] ] \<and>
   bilinear1 solve_lyapunov [ [1 / 2] ] [ [1] ] = Inr [ [4 / 3] ] \<and>
   bilinear2 solve_lyapunov [ [1 / 2] ] [ [1] ] = Inr [ [4 / 3] ] \<and>
   ([ [4 / 3] ] = [ [4 / 3 :: complex] ] \<and> [ [4 / 3] ] = [ [4 / 3 :: complex] ])"
proof -
  have T: "is_mat 1 1 [ [1 / 2] ]" and Q: "is_mat 1 1 [ [1] ]" by simp_all
  from cross_method_agreement[OF T Q solve_lyapunov_exact eval_direct_half
      eval_bilinear1_half eval_bilinear2_half]
  show ?thesis
    using T Q solve_lyapunov_exact eval_direct_half eval_bilinear1_half eval_bilinear2_half
    by simp
qed

subsection \<open>The one-dimensional scenario\<close>

text \<open>
  Claim C3. For \<open>T = [0.5]\<close> and \<open>Q = [1]\<close> every method returns \<open>Sigma = [4/3]\<close>:
  the direct method, both bilinear variants over the instance \<open>solve_lyapunov\<close>, and
  either bilinear variant over any continuous solver that meets \<open>lyap_exact\<close> and
  returns.
\<close>

theorem scenario_one_dimensional:
  "direct_inverse [ [1 / 2] ] [ [1] ] = Inr [ [4 / 3] ] \<and>
   bilinear1 solve_lyapunov [ [1 / 2] ] [ [1] ] = Inr [ [4 / 3] ] \<and>
   bilinear2 solve_lyapunov [ [1 / 2] ] [ [1] ] = Inr [ [4 / 3] ] \<and>
   (\<forall>lyap S. lyap_exact lyap \<longrightarrow>
      bilinear1 lyap [ [1 / 2] ] [ [1] ] = Inr S \<or> bilinear2 lyap [ [1 / 2] ] [ [1] ] = Inr S \<longrightarrow>
      S = [ [4 / 3] ])"
proof (intro conjI allI impI)
  show "direct_inverse [ [1 / 2] ] [ [1] ] = Inr [ [4 / 3] ]" by (rule eval_direct_half)
  show "bilinear1 solve_lyapunov [ [1 / 2] ] [ [1] ] = Inr [ [4 / 3] ]" by (rule eval_bilinear1_half)
  show "bilinear2 solve_lyapunov [ [1 / 2] ] [ [1] ] = Inr [ [4 / 3] ]" by (rule eval_bilinear2_half)
next
  fix lyap S
  assume ls: "lyap_exact lyap"
    and r: "bilinear1 lyap [ [1 / 2] ] [ [1] ] = Inr S \<or> bilinear2 lyap [ [1 / 2] ] [ [1] ] = Inr S"
  have T: "is_mat 1 1 [ [1 / 2] ]" and Q: "is_mat 1 1 [ [1] ]" by simp_all
  have reg: "stein_regular 1 [ [1 / 2] ]" by (rule direct_returns_regular[OF T Q eval_direct_half])
  from r have "is_mat 1 1 S \<and> stein_eq [ [1 / 2] ] [ [1] ] S"
  proof
    assume "bilinear1 lyap [ [1 / 2] ] [ [1] ] = Inr S"
    then show ?thesis by (rule bilinear1_solves[OF T Q ls reg])
  next
    assume "bilinear2 lyap [ [1 / 2] ] [ [1] ] = Inr S"
    then show ?thesis by (rule bilinear2_solves[OF T Q ls reg])
  qed
  then have "is_mat 1 1 S" and "stein_eq [ [1 / 2] ] [ [1] ] S" by simp_all
  then show "S = [ [4 / 3] ]" by (rule direct_inverse_unique[OF T Q eval_direct_half])
qed

theorem scenario_one_dimensional_witness:
  "lyap_exact solve_lyapunov \<and>
   (bilinear1 solve_lyapunov [ [1 / 2] ] [ [1] ] = Inr [ [4 / 3] ] \<or>
    bilinear2 solve_lyapunov [ [1 / 2] ] [ [1] ] = Inr [ [4 / 3] ]) \<and>
   [ [4 / 3] ] = [ [4 / 3 :: complex] ]"
proof -
  from scenario_one_dimensional
  have g: "\<forall>lyap S. lyap_exact lyap \<longrightarrow>
      bilinear1 lyap [ [1 / 2] ] [ [1] ] = Inr S \<or> bilinear2 lyap [ [1 / 2] ] [ [1] ] = Inr S \<longrightarrow>
      S = [ [4 / 3] ]" by (elim conjE)
  have h1: "lyap_exact solve_lyapunov" by (rule solve_lyapunov_exact)
  have h2: "bilinear1 solve_lyapunov [ [1 / 2] ] [ [1] ] = Inr [ [4 / 3] ] \<or>
    bilinear2 solve_lyapunov [ [1 / 2] ] [ [1] ] = Inr [ [4 / 3] ]"
    using eval_bilinear1_half by simp
  from g[rule_format, OF h1 h2] h1 h2 show ?thesis by simp
qed

subsection \<open>The vectorisation convention of the direct method\<close>

text \<open>
  Claim C4. The spec describes the direct method with \<open>Q\<close> stacked column by column.
  The code flattens and refills row by row (numpy's C order), which is the order that
  goes with \<open>kron(T, conj(T))\<close>. The two conventions give different results: on the
  stable \<open>T = [ [1/2, 0], [i, 0] ]\<close> and \<open>Q = I\<close> the code returns a matrix with the
  entry \<open>-2i/3\<close> in row 0, column 1, the column-major pipeline returns its transpose.
\<close>

theorem vectorization_colmajor_counterexample:
  "direct_inverse [ [1 / 2, 0], [\<i>, 0] ] [ [1, 0], [0, 1] ]
     = Inr [ [4 / 3, - (2 * \<i> / 3)], [2 * \<i> / 3, 7 / 3] ] \<and>
   direct_colmajor [ [1 / 2, 0], [\<i>, 0] ] [ [1, 0], [0, 1] ]
     = Inr [ [4 / 3, 2 * \<i> / 3], [- (2 * \<i> / 3), 7 / 3] ] \<and>
   direct_inverse [ [1 / 2, 0], [\<i>, 0] ] [ [1, 0], [0, 1] ]
     \<noteq> direct_colmajor [ [1 / 2, 0], [\<i>, 0] ] [ [1, 0], [0, 1] ]"
  by (simp add: eval_direct_2 eval_colmajor_2)

text \<open>
  Claim C4, amended. The direct method builds \<open>M = I - kron(T, conj(T))\<close>, flattens \<open>Q\<close>
  row by row and refills the solution row by row: entry \<open>(i, j)\<close> of the result is the
  component \<open>i * n + j\<close> of \<open>inv(M) q\<close>, where component \<open>k * n + l\<close> of \<open>q\<close> is \<open>Q[k, l]\<close>.
\<close>

theorem vectorization_row_major:
  assumes "is_mat n n T" and "is_mat n n Q"
  shows "direct_inverse T Q =
         (case inv_m (mat_sub (eye (n * n)) (kron T (conj_m T))) of
            Inl e \<Rightarrow> Inl e
          | Inr N \<Rightarrow> Inr (mk_mat n n
              (\<lambda>i j. \<Sum>k<n. \<Sum>l<n. N ! (i * n + j) ! (k * n + l) * Q ! k ! l)))"
  by (rule direct_inverse_index[OF assms])

theorem vectorization_row_major_witness:
  "is_mat 2 2 [ [1 / 2, 0], [\<i>, 0] ] \<and> is_mat 2 2 [ [1, 0], [0, 1] ] \<and>
   direct_inverse [ [1 / 2, 0], [\<i>, 0] ] [ [1, 0], [0, 1] ] =
     Inr (mk_mat 2 2 (\<lambda>i j. \<Sum>k<2. \<Sum>l<2.
       [ [4 / 3, 0, 0, 0], [- (2 * \<i> / 3), 1, 0, 0], [2 * \<i> / 3, 0, 1, 0], [4 / 3, 0, 0, 1] ]
         ! (i * 2 + j) ! (k * 2 + l) * [ [1, 0], [0, 1] ] ! k ! l))"
proof -
  have T: "is_mat 2 2 [ [1 / 2, 0], [\<i>, 0] ]" and Q: "is_mat 2 2 [ [1, 0], [0, 1] ]" by simp_all
  from vectorization_row_major[OF T Q] show ?thesis
    using T Q by (simp add: eval_op_2 eval_inv_2)
qed

subsection \<open>Failure of the direct method\<close>




subsection \<open>Failure of the bilinear variants\<close>




subsection \<open>The pipelines of the bilinear variants\<close>

text \<open>
  Claim C7. With \<open>A = T\<^sup>H\<close> and \<open>N\<close> the inverse of \<open>A - I\<close> (any matrix with
  \<open>N (A - I) = I\<close>), variant 1 forms \<open>B = N (A + I)\<close>, calls the continuous solver on
  \<open>(B\<^sup>H, -Q)\<close> and, when the solver returns \<open>X\<close>, returns
  \<open>0.5 (B - I)\<^sup>H X (B - I)\<close>; where the discrete equation is regular, \<open>X\<close> is the
  solution of \<open>B\<^sup>H X + X B = -Q\<close>. With \<open>W\<close> the inverse of \<open>A + I\<close> and \<open>V\<close> the
  inverse of \<open>A\<^sup>H + I\<close>, variant 2 forms \<open>B = (A - I) W\<close> and \<open>C = 2 V Q W\<close>, calls the
  solver on \<open>(B\<^sup>H, -C)\<close> and returns what the solver returns, with no scaling; where
  the discrete equation is regular, that is the solution of
  \<open>B\<^sup>H Sigma + Sigma B = -C\<close>. Where the inverse does not exist the variant raises
  the singular-matrix error. The code passes \<open>-Q\<close> itself to the solver: the spec's
  \<open>Q'\<close> is \<open>Q\<close>, which for the Hermitian \<open>Q\<close> of the data model is also \<open>Q\<^sup>H\<close>.
\<close>

theorem bilinear_pipelines:
  assumes "is_mat n n T" and "is_mat n n Q" and "lyap_exact lyap"
  shows "(\<forall>N. is_mat n n N \<and> dot N (mat_sub (ctrans T) (eye n)) = eye n \<longrightarrow>
           (let B = dot N (mat_add (ctrans T) (eye n)) in
            bilinear1 lyap T Q =
              (case lyap (ctrans B) (mat_neg Q) of
                 None \<Rightarrow> Inl Lyapunov_Error
               | Some X \<Rightarrow> Inr (smult (1 / 2)
                   (dot (dot (ctrans (mat_sub B (eye n))) X) (mat_sub B (eye n))))) \<and>
            (\<forall>X. lyap (ctrans B) (mat_neg Q) = Some X \<and> stein_regular n T \<longrightarrow>
               mat_add (dot (ctrans B) X) (dot X B) = mat_neg Q))) \<and>
         (\<not> (\<exists>N. is_mat n n N \<and> dot N (mat_sub (ctrans T) (eye n)) = eye n) \<longrightarrow>
            bilinear1 lyap T Q = Inl Singular_Matrix) \<and>
         (\<forall>W V. is_mat n n W \<and> dot W (mat_add (ctrans T) (eye n)) = eye n \<and>
                is_mat n n V \<and> dot V (mat_add (ctrans (ctrans T)) (eye n)) = eye n \<longrightarrow>
           (let B = dot (mat_sub (ctrans T) (eye n)) W; C = smult 2 (dot (dot V Q) W) in
            bilinear2 lyap T Q =
              (case lyap (ctrans B) (mat_neg C) of
                 None \<Rightarrow> Inl Lyapunov_Error
               | Some S \<Rightarrow> Inr S) \<and>
            (\<forall>S. lyap (ctrans B) (mat_neg C) = Some S \<and> stein_regular n T \<longrightarrow>
               mat_add (dot (ctrans B) S) (dot S B) = mat_neg C))) \<and>
         (\<not> (\<exists>W. is_mat n n W \<and> dot W (mat_add (ctrans T) (eye n)) = eye n) \<longrightarrow>
            bilinear2 lyap T Q = Inl Singular_Matrix) \<and>
         (hermitian Q \<longrightarrow> mat_neg Q = mat_neg (ctrans Q))"
proof (intro conjI allI impI)
  fix N assume h: "is_mat n n N \<and> dot N (mat_sub (ctrans T) (eye n)) = eye n"
  then have N: "is_mat n n N" and NP: "dot N (mat_sub (ctrans T) (eye n)) = eye n" by simp_all
  let ?A = "ctrans T" and ?I = "eye n"
  let ?B = "dot N (mat_add ?A ?I)"
  have A: "is_mat n n ?A" using assms(1) by simp
  have P: "is_mat n n (mat_sub ?A ?I)" using A by simp
  have B: "is_mat n n ?B" using N A by simp
  have cB: "is_mat n n (ctrans ?B)" using B by simp
  have nQ: "is_mat n n (mat_neg Q)" using assms(2) by simp
  have inv: "inv_m (mat_sub ?A ?I) = Inr N" by (rule inv_m_succeeds[OF P N NP])
  have 1: "bilinear1 lyap T Q =
              (case lyap (ctrans ?B) (mat_neg Q) of
                 None \<Rightarrow> Inl Lyapunov_Error
               | Some X \<Rightarrow> Inr (smult (1 / 2)
                   (dot (dot (ctrans (mat_sub ?B ?I)) X) (mat_sub ?B ?I))))"
    by (rule bilinear1_pipeline[OF assms(1) N NP])
  have 2: "mat_add (dot (ctrans ?B) X) (dot X ?B) = mat_neg Q"
    if "lyap (ctrans ?B) (mat_neg Q) = Some X" "stein_regular n T" for X
  proof -
    have rg: "lyap_regular n (ctrans ?B)" by (rule lyap_regular_bilinear1[OF assms(1) inv that(2)])
    from assms(3) cB nQ that(1) rg
    have "mat_add (dot (ctrans ?B) X) (dot X (ctrans (ctrans ?B))) = mat_neg Q"
      unfolding lyap_exact_def by blast
    then show ?thesis using B by simp
  qed
  show "let B = dot N (mat_add (ctrans T) (eye n)) in
            bilinear1 lyap T Q =
              (case lyap (ctrans B) (mat_neg Q) of
                 None \<Rightarrow> Inl Lyapunov_Error
               | Some X \<Rightarrow> Inr (smult (1 / 2)
                   (dot (dot (ctrans (mat_sub B (eye n))) X) (mat_sub B (eye n))))) \<and>
            (\<forall>X. lyap (ctrans B) (mat_neg Q) = Some X \<and> stein_regular n T \<longrightarrow>
               mat_add (dot (ctrans B) X) (dot X B) = mat_neg Q)"
    unfolding Let_def using 1 2 by blast
next
  assume "\<not> (\<exists>N. is_mat n n N \<and> dot N (mat_sub (ctrans T) (eye n)) = eye n)"
  then have "inv_m (mat_sub (ctrans T) (eye n)) = Inl Singular_Matrix"
    using inv_m_none[of n "mat_sub (ctrans T) (eye n)"] assms(1) by simp
  then show "bilinear1 lyap T Q = Inl Singular_Matrix"
    using bilinear1_singular_iff[OF assms(1)] by simp
next
  fix W V
  assume h: "is_mat n n W \<and> dot W (mat_add (ctrans T) (eye n)) = eye n \<and>
             is_mat n n V \<and> dot V (mat_add (ctrans (ctrans T)) (eye n)) = eye n"
  then have W: "is_mat n n W" and WP: "dot W (mat_add (ctrans T) (eye n)) = eye n"
    and V: "is_mat n n V" and VP: "dot V (mat_add (ctrans (ctrans T)) (eye n)) = eye n"
    by simp_all
  let ?A = "ctrans T" and ?I = "eye n"
  let ?B = "dot (mat_sub ?A ?I) W"
  let ?C = "smult 2 (dot (dot V Q) W)"
  have A: "is_mat n n ?A" using assms(1) by simp
  have P: "is_mat n n (mat_add ?A ?I)" using A by simp
  have B: "is_mat n n ?B" using W A by simp
  have cB: "is_mat n n (ctrans ?B)" using B by simp
  have nC: "is_mat n n (mat_neg ?C)" using V assms(2) W by simp
  have inv: "inv_m (mat_add ?A ?I) = Inr W" by (rule inv_m_succeeds[OF P W WP])
  have 1: "bilinear2 lyap T Q =
              (case lyap (ctrans ?B) (mat_neg ?C) of
                 None \<Rightarrow> Inl Lyapunov_Error
               | Some S \<Rightarrow> Inr S)"
    by (rule bilinear2_pipeline[OF assms(1,2) W WP V VP])
  have 2: "mat_add (dot (ctrans ?B) S) (dot S ?B) = mat_neg ?C"
    if "lyap (ctrans ?B) (mat_neg ?C) = Some S" "stein_regular n T" for S
  proof -
    have rg: "lyap_regular n (ctrans ?B)" by (rule lyap_regular_bilinear2[OF assms(1) inv that(2)])
    from assms(3) cB nC that(1) rg
    have "mat_add (dot (ctrans ?B) S) (dot S (ctrans (ctrans ?B))) = mat_neg ?C"
      unfolding lyap_exact_def by blast
    then show ?thesis using B by simp
  qed
  show "let B = dot (mat_sub (ctrans T) (eye n)) W; C = smult 2 (dot (dot V Q) W) in
            bilinear2 lyap T Q =
              (case lyap (ctrans B) (mat_neg C) of
                 None \<Rightarrow> Inl Lyapunov_Error
               | Some S \<Rightarrow> Inr S) \<and>
            (\<forall>S. lyap (ctrans B) (mat_neg C) = Some S \<and> stein_regular n T \<longrightarrow>
               mat_add (dot (ctrans B) S) (dot S B) = mat_neg C)"
    unfolding Let_def using 1 2 by blast
next
  assume "\<not> (\<exists>W. is_mat n n W \<and> dot W (mat_add (ctrans T) (eye n)) = eye n)"
  then have "inv_m (mat_add (ctrans T) (eye n)) = Inl Singular_Matrix"
    using inv_m_none[of n "mat_add (ctrans T) (eye n)"] assms(1) by simp
  then show "bilinear2 lyap T Q = Inl Singular_Matrix"
    using bilinear2_singular_iff[OF assms(1)] by simp
next
  assume "hermitian Q"
  then show "mat_neg Q = mat_neg (ctrans Q)" by (simp add: hermitian_def)
qed

theorem bilinear_pipelines_witness:
  "is_mat 1 1 [ [1 / 2] ] \<and> is_mat 1 1 [ [1] ] \<and> lyap_exact solve_lyapunov \<and>
   stein_regular 1 [ [1 / 2] ] \<and> hermitian [ [1] ] \<and>
   is_mat 1 1 [ [- 2] ] \<and> dot [ [- 2] ] (mat_sub (ctrans [ [1 / 2] ]) (eye 1)) = eye 1 \<and>
   dot [ [- 2] ] (mat_add (ctrans [ [1 / 2] ]) (eye 1)) = [ [- 3] ] \<and>
   solve_lyapunov (ctrans [ [- 3] ]) (mat_neg [ [1] ]) = Some [ [1 / 6] ] \<and>
   mat_add (dot (ctrans [ [- 3] ]) [ [1 / 6] ]) (dot [ [1 / 6] ] [ [- 3] ]) = mat_neg [ [1] ] \<and>
   bilinear1 solve_lyapunov [ [1 / 2] ] [ [1] ] =
     Inr (smult (1 / 2) (dot (dot (ctrans (mat_sub [ [- 3] ] (eye 1))) [ [1 / 6] ])
                            (mat_sub [ [- 3] ] (eye 1)))) \<and>
   is_mat 1 1 [ [2 / 3] ] \<and> dot [ [2 / 3] ] (mat_add (ctrans [ [1 / 2] ]) (eye 1)) = eye 1 \<and>
   dot [ [2 / 3] ] (mat_add (ctrans (ctrans [ [1 / 2] ])) (eye 1)) = eye 1 \<and>
   dot (mat_sub (ctrans [ [1 / 2] ]) (eye 1)) [ [2 / 3] ] = [ [- (1 / 3)] ] \<and>
   smult 2 (dot (dot [ [2 / 3] ] [ [1] ]) [ [2 / 3] ]) = [ [8 / 9] ] \<and>
   solve_lyapunov (ctrans [ [- (1 / 3)] ]) (mat_neg [ [8 / 9] ]) = Some [ [4 / 3] ] \<and>
   mat_add (dot (ctrans [ [- (1 / 3)] ]) [ [4 / 3] ]) (dot [ [4 / 3] ] [ [- (1 / 3)] ])
     = mat_neg [ [8 / 9] ] \<and>
   bilinear2 solve_lyapunov [ [1 / 2] ] [ [1] ] = Inr [ [4 / 3] ] \<and>
   mat_neg [ [1] ] = mat_neg (ctrans [ [1 :: complex] ])"
proof -
  have T: "is_mat 1 1 [ [1 / 2] ]" and Q: "is_mat 1 1 [ [1] ]" by simp_all
  have reg: "stein_regular 1 [ [1 / 2] ]" by (rule direct_returns_regular[OF T Q eval_direct_half])
  have N: "is_mat 1 1 [ [- 2] ]" and W: "is_mat 1 1 [ [2 / 3] ]" by simp_all
  have NP: "dot [ [- 2] ] (mat_sub (ctrans [ [1 / 2] ]) (eye 1)) = eye 1" by (simp add: eval_1)
  have B1: "dot [ [- 2] ] (mat_add (ctrans [ [1 / 2] ]) (eye 1)) = [ [- 3] ]" by (simp add: eval_1)
  have L1: "solve_lyapunov (ctrans [ [- 3] ]) (mat_neg [ [1] ]) = Some [ [1 / 6] ]"
    by (simp add: eval_1)
  have WP: "dot [ [2 / 3] ] (mat_add (ctrans [ [1 / 2] ]) (eye 1)) = eye 1" by (simp add: eval_1)
  have VP: "dot [ [2 / 3] ] (mat_add (ctrans (ctrans [ [1 / 2] ])) (eye 1)) = eye 1"
    by (simp add: eval_1)
  have B2: "dot (mat_sub (ctrans [ [1 / 2] ]) (eye 1)) [ [2 / 3] ] = [ [- (1 / 3)] ]"
    by (simp add: eval_1)
  have C2: "smult 2 (dot (dot [ [2 / 3] ] [ [1] ]) [ [2 / 3] ]) = [ [8 / 9] ]" by (simp add: eval_1)
  have L2: "solve_lyapunov (ctrans [ [- (1 / 3)] ]) (mat_neg [ [8 / 9] ]) = Some [ [4 / 3] ]"
    by (simp add: eval_1)
  note th = bilinear_pipelines[OF T Q solve_lyapunov_exact]
  from th N NP have p1: "let B = dot [ [- 2] ] (mat_add (ctrans [ [1 / 2] ]) (eye 1)) in
            bilinear1 solve_lyapunov [ [1 / 2] ] [ [1] ] =
              (case solve_lyapunov (ctrans B) (mat_neg [ [1] ]) of
                 None \<Rightarrow> Inl Lyapunov_Error
               | Some X \<Rightarrow> Inr (smult (1 / 2)
                   (dot (dot (ctrans (mat_sub B (eye 1))) X) (mat_sub B (eye 1))))) \<and>
            (\<forall>X. solve_lyapunov (ctrans B) (mat_neg [ [1] ]) = Some X \<and> stein_regular 1 [ [1 / 2] ] \<longrightarrow>
               mat_add (dot (ctrans B) X) (dot X B) = mat_neg [ [1] ])"
    by blast
  from p1 have r1: "bilinear1 solve_lyapunov [ [1 / 2] ] [ [1] ] =
     Inr (smult (1 / 2) (dot (dot (ctrans (mat_sub [ [- 3] ] (eye 1))) [ [1 / 6] ])
                            (mat_sub [ [- 3] ] (eye 1))))"
    unfolding Let_def B1 L1 by simp
  from p1 L1 reg
  have e1: "mat_add (dot (ctrans [ [- 3] ]) [ [1 / 6] ]) (dot [ [1 / 6] ] [ [- 3] ]) = mat_neg [ [1] ]"
    unfolding Let_def B1 by blast
  from th W WP VP
  have p2: "let B = dot (mat_sub (ctrans [ [1 / 2] ]) (eye 1)) [ [2 / 3] ];
                C = smult 2 (dot (dot [ [2 / 3] ] [ [1] ]) [ [2 / 3] ]) in
            bilinear2 solve_lyapunov [ [1 / 2] ] [ [1] ] =
              (case solve_lyapunov (ctrans B) (mat_neg C) of
                 None \<Rightarrow> Inl Lyapunov_Error
               | Some S \<Rightarrow> Inr S) \<and>
            (\<forall>S. solve_lyapunov (ctrans B) (mat_neg C) = Some S \<and> stein_regular 1 [ [1 / 2] ] \<longrightarrow>
               mat_add (dot (ctrans B) S) (dot S B) = mat_neg C)"
    by blast
  from p2 have r2: "bilinear2 solve_lyapunov [ [1 / 2] ] [ [1] ] = Inr [ [4 / 3] ]"
    unfolding Let_def B2 C2 L2 by simp
  from p2 L2 reg
  have e2: "mat_add (dot (ctrans [ [- (1 / 3)] ]) [ [4 / 3] ]) (dot [ [4 / 3] ] [ [- (1 / 3)] ])
     = mat_neg [ [8 / 9] ]"
    unfolding Let_def B2 C2 by blast
  from th hermitian_one have h: "mat_neg [ [1] ] = mat_neg (ctrans [ [1 :: complex] ])" by blast
  show ?thesis
    by (intro conjI T Q solve_lyapunov_exact reg hermitian_one N NP B1 L1 e1 r1 W WP VP B2 C2
        L2 e2 r2 h)
qed

subsection \<open>Unstable transition matrices\<close>




subsection \<open>Non-Hermitian noise covariance\<close>

text \<open>
  Claim C10. The spec says that \<open>Q\<close> is checked to be Hermitian and that a solve on a
  non-Hermitian \<open>Q\<close> fails. The code never inspects the entries of \<open>Q\<close>: for the
  non-Hermitian \<open>Q = [i]\<close> and \<open>T = [0.5]\<close> the direct method and variant 2 return
  \<open>[4i/3]\<close>.
\<close>

theorem nonhermitian_counterexample:
  "\<not> hermitian [ [\<i>] ] \<and>
   direct_inverse [ [1 / 2] ] [ [\<i>] ] = Inr [ [4 * \<i> / 3] ] \<and>
   bilinear2 solve_lyapunov [ [1 / 2] ] [ [\<i>] ] = Inr [ [4 * \<i> / 3] ]"
  by (intro conjI not_hermitian_i eval_direct_nonhermitian eval_bilinear2_nonhermitian)

text \<open>
  Claim C10, amended. That \<open>Q\<close> is Hermitian is assumed, not checked: for \<open>n\<close> by \<open>n\<close>
  arrays \<open>Q\<close> and \<open>Q'\<close>, whether a solve fails does not depend on the noise covariance.
  The direct method fails on \<open>(T, Q)\<close> if and only if it fails on \<open>(T, Q')\<close>; the
  bilinear variants fail with the singular-matrix error on \<open>(T, Q)\<close> if and only if
  they do on \<open>(T, Q')\<close>, and over a continuous solver that returns on square arrays
  they fail on \<open>(T, Q)\<close> if and only if they fail on \<open>(T, Q')\<close>. For a non-Hermitian
  \<open>Q\<close> a solve returns the result computed from \<open>Q\<close>: what the direct method returns,
  and what a bilinear variant returns where the discrete equation is regular, solves
  the equation for this \<open>Q\<close> and is itself not Hermitian.
\<close>

theorem failure_independent_of_noise:
  assumes "is_mat n n T" and "is_mat n n Q" and "is_mat n n Q'"
  shows "isl (direct_inverse T Q) = isl (direct_inverse T Q') \<and>
   (bilinear1 lyap T Q = Inl Singular_Matrix) = (bilinear1 lyap T Q' = Inl Singular_Matrix) \<and>
   (bilinear2 lyap T Q = Inl Singular_Matrix) = (bilinear2 lyap T Q' = Inl Singular_Matrix) \<and>
   (0 < n \<and> lyap_total lyap \<longrightarrow>
      isl (bilinear1 lyap T Q) = isl (bilinear1 lyap T Q') \<and>
      isl (bilinear2 lyap T Q) = isl (bilinear2 lyap T Q')) \<and>
   (\<forall>S. \<not> hermitian Q \<and>
        (direct_inverse T Q = Inr S \<or>
         lyap_exact lyap \<and> stein_regular n T \<and>
           (bilinear1 lyap T Q = Inr S \<or> bilinear2 lyap T Q = Inr S)) \<longrightarrow>
        stein_eq T Q S \<and> \<not> hermitian S)"
proof (intro conjI allI impI)
  show "isl (direct_inverse T Q) = isl (direct_inverse T Q')"
    by (rule direct_inverse_isl) (use assms in \<open>simp add: size_m_sq\<close>)
  show "(bilinear1 lyap T Q = Inl Singular_Matrix) = (bilinear1 lyap T Q' = Inl Singular_Matrix)"
    using bilinear1_singular_eigen[OF assms(1)] by simp
  show "(bilinear2 lyap T Q = Inl Singular_Matrix) = (bilinear2 lyap T Q' = Inl Singular_Matrix)"
    using bilinear2_singular_eigen[OF assms(1)] by simp
next
  assume "0 < n \<and> lyap_total lyap"
  then show "isl (bilinear1 lyap T Q) = isl (bilinear1 lyap T Q')"
    using bilinear1_isl[OF assms] by blast
next
  assume "0 < n \<and> lyap_total lyap"
  then show "isl (bilinear2 lyap T Q) = isl (bilinear2 lyap T Q')"
    using bilinear2_isl[OF assms] by blast
next
  fix S
  assume h: "\<not> hermitian Q \<and>
        (direct_inverse T Q = Inr S \<or>
         lyap_exact lyap \<and> stein_regular n T \<and>
           (bilinear1 lyap T Q = Inr S \<or> bilinear2 lyap T Q = Inr S))"
  then have "is_mat n n S \<and> stein_eq T Q S"
    using direct_inverse_solves[OF assms(1,2)] bilinear1_solves[OF assms(1,2)]
      bilinear2_solves[OF assms(1,2)] by blast
  then have S: "is_mat n n S" and eq: "stein_eq T Q S" by simp_all
  from h hermitian_solution_noise[OF assms(1,2) S eq] have "\<not> hermitian S" by blast
  with eq show "stein_eq T Q S" and "\<not> hermitian S" by simp_all
qed

theorem failure_independent_of_noise_witness:
  "is_mat 1 1 [ [1 / 2] ] \<and> is_mat 1 1 [ [\<i>] ] \<and> is_mat 1 1 [ [1] ] \<and>
   0 < (1::nat) \<and> lyap_total solve_lyapunov \<and> \<not> hermitian [ [\<i>] ] \<and>
   direct_inverse [ [1 / 2] ] [ [\<i>] ] = Inr [ [4 * \<i> / 3] ] \<and>
   isl (direct_inverse [ [1 / 2] ] [ [\<i>] ]) = isl (direct_inverse [ [1 / 2] ] [ [1] ]) \<and>
   isl (bilinear1 solve_lyapunov [ [1 / 2] ] [ [\<i>] ])
     = isl (bilinear1 solve_lyapunov [ [1 / 2] ] [ [1] ]) \<and>
   isl (bilinear2 solve_lyapunov [ [1 / 2] ] [ [\<i>] ])
     = isl (bilinear2 solve_lyapunov [ [1 / 2] ] [ [1] ]) \<and>
   stein_eq [ [1 / 2] ] [ [\<i>] ] [ [4 * \<i> / 3] ] \<and> \<not> hermitian [ [4 * \<i> / 3] ]"
proof -
  have T: "is_mat 1 1 [ [1 / 2] ]" and Q: "is_mat 1 1 [ [\<i>] ]" and Q': "is_mat 1 1 [ [1] ]"
    by simp_all
  have n: "0 < (1::nat)" by simp
  note th = failure_independent_of_noise[OF T Q Q', of solve_lyapunov]
  from th have d: "isl (direct_inverse [ [1 / 2] ] [ [\<i>] ]) = isl (direct_inverse [ [1 / 2] ] [ [1] ])"
    by blast
  from th n solve_lyapunov_total
  have b: "isl (bilinear1 solve_lyapunov [ [1 / 2] ] [ [\<i>] ])
     = isl (bilinear1 solve_lyapunov [ [1 / 2] ] [ [1] ])"
    "isl (bilinear2 solve_lyapunov [ [1 / 2] ] [ [\<i>] ])
     = isl (bilinear2 solve_lyapunov [ [1 / 2] ] [ [1] ])" by blast+
  from th not_hermitian_i eval_direct_nonhermitian
  have s: "stein_eq [ [1 / 2] ] [ [\<i>] ] [ [4 * \<i> / 3] ] \<and> \<not> hermitian [ [4 * \<i> / 3] ]"
    by blast
  show ?thesis
    using T Q Q' n solve_lyapunov_total not_hermitian_i eval_direct_nonhermitian d b s
    by blast
qed

end
